theory Spec2Isabelle
  imports Main "HOL-Library.Product_Lexorder"
begin

section \<open>The Minesweeper knowledge base of \<^verbatim>\<open>minesweeper.py\<close>\<close>

text \<open>
  The development embeds the classes \<^verbatim>\<open>Sentence\<close> and \<^verbatim>\<open>MinesweeperAI\<close>.

  \<^item> A cell is a pair of Python integers.
  \<^item> A Python \<^verbatim>\<open>set\<close> of cells is a HOL set; Python sets are finite, so
    \<^verbatim>\<open>len(cells)\<close> is \<open>int (card cells)\<close> and \<^verbatim>\<open>len(cells) == 0\<close> is \<open>cells = {}\<close>.
  \<^item> \<^verbatim>\<open>self.knowledge\<close> is a Python list of mutable \<^verbatim>\<open>Sentence\<close> objects.  It is
    modelled as a list of sentence values.  The only in-place mutation of a sentence
    happens in the loops of \<^verbatim>\<open>mark_mine\<close>/\<^verbatim>\<open>mark_safe\<close> on the element the list
    iterator has just produced, which becomes a list update at the iterator's index;
    \<^verbatim>\<open>list.remove\<close> and \<^verbatim>\<open>in\<close> compare with \<^verbatim>\<open>__eq__\<close> (cell set and count), which is
    equality of the values.  No frame reads a sentence object again after it has handed
    it to the list, so values and objects cannot be told apart.
  \<^item> A Python \<^verbatim>\<open>for\<close> loop over a list reads the list through an index that is
    compared with the current length before every step; the list changes under the
    loops of \<^verbatim>\<open>mark_mine\<close>/\<^verbatim>\<open>mark_safe\<close>, so these loops carry the index explicitly.
  \<^item> The order in which Python iterates over a set is not specified.  Every function
    that iterates over a set takes the enumeration \<open>en\<close> as a parameter.
  \<^item> \<^verbatim>\<open>conclude_infer_integrate\<close> calls itself through \<^verbatim>\<open>is_conclusive\<close>,
    \<^verbatim>\<open>mark_mine\<close> and \<^verbatim>\<open>mark_safe\<close>.  Each of these methods takes the method it
    calls back, \<open>cii\<close>, as its first argument, and \<^verbatim>\<open>conclude_infer_integrate\<close>
    passes itself.  Nothing in the source bounds the recursion or the loops over the
    changing list, so both take a fuel argument \<open>n\<close>: \<open>None\<close> means that the call
    did not return within the given fuel.  Python's limit on the depth of recursion
    (\<^verbatim>\<open>RecursionError\<close>) is not modelled.
\<close>

type_synonym cell = "int \<times> int"

subsection \<open>\<^verbatim>\<open>class Sentence\<close>\<close>

record Sentence =
  cells :: "cell set"
  count :: int

definition is_empty :: "Sentence \<Rightarrow> bool" where
  "is_empty s = (cells s = {})"

definition known_mines :: "Sentence \<Rightarrow> cell set option" where
  "known_mines s = (if count s = int (card (cells s)) then Some (cells s) else None)"

definition known_safes :: "Sentence \<Rightarrow> cell set option" where
  "known_safes s = (if count s = 0 then Some (cells s) else None)"

text \<open>\<^verbatim>\<open>Sentence.mark_mine\<close> and \<^verbatim>\<open>Sentence.mark_safe\<close>: the returned flag and the
  sentence after the in-place update.\<close>

definition Sentence_mark_mine :: "cell \<Rightarrow> Sentence \<Rightarrow> bool \<times> Sentence" where
  "Sentence_mark_mine c s =
     (if c \<in> cells s then (True, s\<lparr>cells := cells s - {c}, count := count s - 1\<rparr>)
      else (False, s))"

definition Sentence_mark_safe :: "cell \<Rightarrow> Sentence \<Rightarrow> bool \<times> Sentence" where
  "Sentence_mark_safe c s =
     (if c \<in> cells s then (True, s\<lparr>cells := cells s - {c}\<rparr>)
      else (False, s))"

subsection \<open>\<^verbatim>\<open>class MinesweeperAI\<close>\<close>

record MinesweeperAI =
  height :: int
  width :: int
  moves_made :: "cell set"
  mines :: "cell set"
  safes :: "cell set"
  knowledge :: "Sentence list"

definition init :: "int \<Rightarrow> int \<Rightarrow> MinesweeperAI" where
  "init h w = \<lparr>height = h, width = w, moves_made = {}, mines = {}, safes = {}, knowledge = []\<rparr>"

text \<open>Python's truth value of \<^verbatim>\<open>None\<close> or a set: a set is true iff it is not empty.\<close>

fun truthy :: "cell set option \<Rightarrow> bool" where
  "truthy None = False"
| "truthy (Some S) = (S \<noteq> {})"

text \<open>The inference loop of \<^verbatim>\<open>conclude_infer_integrate\<close> (lines 258 to 275): \<open>others\<close> is
  the part of \<^verbatim>\<open>self.knowledge\<close> still to visit, \<open>kn\<close> the whole of it, \<open>acc\<close> the
  list \<^verbatim>\<open>inferences\<close>.\<close>

fun make_inferences :: "Sentence \<Rightarrow> Sentence list \<Rightarrow> Sentence list \<Rightarrow> Sentence list \<Rightarrow> Sentence list" where
  "make_inferences s [] kn acc = acc"
| "make_inferences s (other # others) kn acc =
     (if cells s \<subseteq> cells other then
        (let inference = \<lparr>cells = cells other - cells s, count = count other - count s\<rparr>
         in make_inferences s others kn
              (if inference \<notin> set acc \<and> inference \<notin> set kn then acc @ [inference] else acc))
      else if cells other \<subseteq> cells s then
        (let inference = \<lparr>cells = cells s - cells other, count = count s - count other\<rparr>
         in make_inferences s others kn
              (if inference \<notin> set acc \<and> inference \<notin> set kn then acc @ [inference] else acc))
      else make_inferences s others kn acc)"

text \<open>The loop of \<^verbatim>\<open>MinesweeperAI.mark_mine\<close> (lines 177 to 182); \<open>i\<close> is the index of
  the list iterator.\<close>

primrec mark_mine_loop ::
  "(Sentence \<Rightarrow> MinesweeperAI \<Rightarrow> MinesweeperAI option) \<Rightarrow> nat \<Rightarrow> cell \<Rightarrow> nat \<Rightarrow>
   MinesweeperAI \<Rightarrow> MinesweeperAI option" where
  "mark_mine_loop cii 0 c i st = None"
| "mark_mine_loop cii (Suc n) c i st =
     (if i < length (knowledge st) then
        (case Sentence_mark_mine c (knowledge st ! i) of
           (True, sentence) \<Rightarrow>
             (case cii sentence (st\<lparr>knowledge := remove1 sentence ((knowledge st)[i := sentence])\<rparr>) of
                None \<Rightarrow> None
              | Some st' \<Rightarrow> mark_mine_loop cii n c (i + 1) st')
         | (False, sentence) \<Rightarrow> mark_mine_loop cii n c (i + 1) st)
      else Some st)"

definition mark_mine ::
  "(Sentence \<Rightarrow> MinesweeperAI \<Rightarrow> MinesweeperAI option) \<Rightarrow> nat \<Rightarrow> cell \<Rightarrow>
   MinesweeperAI \<Rightarrow> MinesweeperAI option" where
  "mark_mine cii n c st = mark_mine_loop cii n c 0 (st\<lparr>mines := insert c (mines st)\<rparr>)"

text \<open>The loop of \<^verbatim>\<open>MinesweeperAI.mark_safe\<close> (lines 190 to 195).\<close>

primrec mark_safe_loop ::
  "(Sentence \<Rightarrow> MinesweeperAI \<Rightarrow> MinesweeperAI option) \<Rightarrow> nat \<Rightarrow> cell \<Rightarrow> nat \<Rightarrow>
   MinesweeperAI \<Rightarrow> MinesweeperAI option" where
  "mark_safe_loop cii 0 c i st = None"
| "mark_safe_loop cii (Suc n) c i st =
     (if i < length (knowledge st) then
        (case Sentence_mark_safe c (knowledge st ! i) of
           (True, sentence) \<Rightarrow>
             (case cii sentence (st\<lparr>knowledge := remove1 sentence ((knowledge st)[i := sentence])\<rparr>) of
                None \<Rightarrow> None
              | Some st' \<Rightarrow> mark_safe_loop cii n c (i + 1) st')
         | (False, sentence) \<Rightarrow> mark_safe_loop cii n c (i + 1) st)
      else Some st)"

definition mark_safe ::
  "(Sentence \<Rightarrow> MinesweeperAI \<Rightarrow> MinesweeperAI option) \<Rightarrow> nat \<Rightarrow> cell \<Rightarrow>
   MinesweeperAI \<Rightarrow> MinesweeperAI option" where
  "mark_safe cii n c st = mark_safe_loop cii n c 0 (st\<lparr>safes := insert c (safes st)\<rparr>)"

text \<open>The two loops of \<^verbatim>\<open>is_conclusive\<close> over the copied set, in the order \<open>cs\<close>.\<close>

primrec mark_safe_each ::
  "(Sentence \<Rightarrow> MinesweeperAI \<Rightarrow> MinesweeperAI option) \<Rightarrow> nat \<Rightarrow> cell list \<Rightarrow>
   MinesweeperAI \<Rightarrow> MinesweeperAI option" where
  "mark_safe_each cii n [] st = Some st"
| "mark_safe_each cii n (c # cs) st =
     (case mark_safe cii n c st of None \<Rightarrow> None | Some st' \<Rightarrow> mark_safe_each cii n cs st')"

primrec mark_mine_each ::
  "(Sentence \<Rightarrow> MinesweeperAI \<Rightarrow> MinesweeperAI option) \<Rightarrow> nat \<Rightarrow> cell list \<Rightarrow>
   MinesweeperAI \<Rightarrow> MinesweeperAI option" where
  "mark_mine_each cii n [] st = Some st"
| "mark_mine_each cii n (c # cs) st =
     (case mark_mine cii n c st of None \<Rightarrow> None | Some st' \<Rightarrow> mark_mine_each cii n cs st')"

definition is_conclusive ::
  "(Sentence \<Rightarrow> MinesweeperAI \<Rightarrow> MinesweeperAI option) \<Rightarrow> nat \<Rightarrow> (cell set \<Rightarrow> cell list) \<Rightarrow>
   Sentence \<Rightarrow> MinesweeperAI \<Rightarrow> (bool \<times> MinesweeperAI) option" where
  "is_conclusive cii n en sentence st =
     (if truthy (known_safes sentence) then
        (case mark_safe_each cii n (en (the (known_safes sentence))) st of
           None \<Rightarrow> None | Some st' \<Rightarrow> Some (True, st'))
      else if truthy (known_mines sentence) then
        (case mark_mine_each cii n (en (the (known_mines sentence))) st of
           None \<Rightarrow> None | Some st' \<Rightarrow> Some (True, st'))
      else Some (False, st))"

text \<open>The loop over \<^verbatim>\<open>inferences\<close> (lines 281 and 282).\<close>

primrec integrate_each ::
  "(Sentence \<Rightarrow> MinesweeperAI \<Rightarrow> MinesweeperAI option) \<Rightarrow> Sentence list \<Rightarrow>
   MinesweeperAI \<Rightarrow> MinesweeperAI option" where
  "integrate_each cii [] st = Some st"
| "integrate_each cii (inference # inferences) st =
     (case cii inference st of None \<Rightarrow> None | Some st' \<Rightarrow> integrate_each cii inferences st')"

primrec conclude_infer_integrate ::
  "nat \<Rightarrow> (cell set \<Rightarrow> cell list) \<Rightarrow> Sentence \<Rightarrow> MinesweeperAI \<Rightarrow> MinesweeperAI option" where
  "conclude_infer_integrate 0 en sentence st = None"
| "conclude_infer_integrate (Suc n) en sentence st =
     (if sentence \<in> set (knowledge st) \<or> is_empty sentence then Some st
      else
        (case is_conclusive (conclude_infer_integrate n en) n en sentence st of
           None \<Rightarrow> None
         | Some (True, st') \<Rightarrow> Some st'
         | Some (False, st') \<Rightarrow>
             integrate_each (conclude_infer_integrate n en)
               (make_inferences sentence (knowledge st') (knowledge st') [])
               (st'\<lparr>knowledge := knowledge st' @ [sentence]\<rparr>)))"

text \<open>\<^verbatim>\<open>add_knowledge\<close>: the cells the two nested \<^verbatim>\<open>range\<close> loops visit, in their order,
  and the loop body over them (lines 218 to 228).\<close>

definition block :: "MinesweeperAI \<Rightarrow> cell \<Rightarrow> cell list" where
  "block st c =
     List.product (filter (\<lambda>i. 0 \<le> i \<and> i < height st) [fst c - 1 .. fst c + 1])
                  (filter (\<lambda>j. 0 \<le> j \<and> j < width st) [snd c - 1 .. snd c + 1])"

primrec scan :: "MinesweeperAI \<Rightarrow> cell list \<Rightarrow> cell set \<Rightarrow> int \<Rightarrow> Sentence" where
  "scan st [] surrounding_unknowns cnt = \<lparr>cells = surrounding_unknowns, count = cnt\<rparr>"
| "scan st (c # cs) surrounding_unknowns cnt =
     (if c \<notin> safes st then
        (if c \<in> mines st then scan st cs surrounding_unknowns (cnt - 1)
         else scan st cs (insert c surrounding_unknowns) cnt)
      else scan st cs surrounding_unknowns cnt)"

definition add_knowledge ::
  "nat \<Rightarrow> (cell set \<Rightarrow> cell list) \<Rightarrow> cell \<Rightarrow> int \<Rightarrow> MinesweeperAI \<Rightarrow> MinesweeperAI option" where
  "add_knowledge n en c cnt st =
     (case mark_safe (conclude_infer_integrate n en) n c (st\<lparr>moves_made := insert c (moves_made st)\<rparr>) of
        None \<Rightarrow> None
      | Some st' \<Rightarrow> conclude_infer_integrate n en (scan st' (block st' c) {} cnt) st')"

text \<open>One fixed iteration order for evaluating the code on concrete inputs.\<close>

definition ascending :: "cell set \<Rightarrow> cell list" where
  "ascending S = sorted_list_of_set S"

subsection \<open>Notions used to state the properties\<close>

text \<open>An enumeration lists every finite set once, in some order.\<close>

definition enumerates :: "(cell set \<Rightarrow> cell list) \<Rightarrow> bool" where
  "enumerates en = (\<forall>S. finite S \<longrightarrow> set (en S) = S \<and> distinct (en S))"

text \<open>Soundness with respect to a ground truth \<open>M\<close>, the set of cells that hold a mine:
  a sentence is sound when its count is the number of its cells in \<open>M\<close>; a state is sound
  when its sentences are, every known mine is a mine and no known safe cell is one.\<close>

definition sound_sentence :: "cell set \<Rightarrow> Sentence \<Rightarrow> bool" where
  "sound_sentence M s = (finite (cells s) \<and> count s = int (card (cells s \<inter> M)))"

definition sound :: "cell set \<Rightarrow> MinesweeperAI \<Rightarrow> bool" where
  "sound M st = ((\<forall>s \<in> set (knowledge st). sound_sentence M s) \<and> mines st \<subseteq> M \<and> safes st \<inter> M = {})"

definition sound_cii :: "cell set \<Rightarrow> (Sentence \<Rightarrow> MinesweeperAI \<Rightarrow> MinesweeperAI option) \<Rightarrow> bool" where
  "sound_cii M cii = (\<forall>s st st'. sound M st \<longrightarrow> sound_sentence M s \<longrightarrow> cii s st = Some st' \<longrightarrow> sound M st')"

text \<open>A sentence is resolvable when its count is 0 or the number of its cells.\<close>

definition resolvable :: "Sentence \<Rightarrow> bool" where
  "resolvable s = (count s = 0 \<or> count s = int (card (cells s)))"

text \<open>A method \<open>cii\<close> adds only sentences that are not resolvable to \<^verbatim>\<open>knowledge\<close>.\<close>

definition adds_unresolved :: "(Sentence \<Rightarrow> MinesweeperAI \<Rightarrow> MinesweeperAI option) \<Rightarrow> bool" where
  "adds_unresolved cii =
     (\<forall>s st st'. cii s st = Some st' \<longrightarrow>
        set (knowledge st') \<subseteq> set (knowledge st) \<union> {x. \<not> resolvable x})"

text \<open>From one state to a later one the board and \<^verbatim>\<open>moves_made\<close> stay and the sets
  \<^verbatim>\<open>mines\<close> and \<^verbatim>\<open>safes\<close> grow.\<close>

definition extends :: "MinesweeperAI \<Rightarrow> MinesweeperAI \<Rightarrow> bool" where
  "extends st st' =
     (height st' = height st \<and> width st' = width st \<and> moves_made st' = moves_made st \<and>
      mines st \<subseteq> mines st' \<and> safes st \<subseteq> safes st')"

definition extends_cii :: "(Sentence \<Rightarrow> MinesweeperAI \<Rightarrow> MinesweeperAI option) \<Rightarrow> bool" where
  "extends_cii cii = (\<forall>s st st'. cii s st = Some st' \<longrightarrow> extends st st')"

text \<open>The in-bounds neighbours of a cell on a board of height \<open>h\<close> and width \<open>w\<close>,
  the cell itself excluded.\<close>

definition neighbours :: "int \<Rightarrow> int \<Rightarrow> cell \<Rightarrow> cell set" where
  "neighbours h w c =
     {(i, j). 0 \<le> i \<and> i < h \<and> 0 \<le> j \<and> j < w \<and>
              \<bar>i - fst c\<bar> \<le> 1 \<and> \<bar>j - snd c\<bar> \<le> 1 \<and> (i, j) \<noteq> c}"

text \<open>The states a game reaches when the caller keeps its contract: every call of
  \<^verbatim>\<open>add_knowledge\<close> that returns reports a cell that holds no mine, with the number of
  mines among its in-bounds neighbours; \<open>M\<close> is the set of cells that hold a mine.\<close>

inductive reachable :: "(cell set \<Rightarrow> cell list) \<Rightarrow> cell set \<Rightarrow> int \<Rightarrow> int \<Rightarrow> MinesweeperAI \<Rightarrow> bool"
  for en :: "cell set \<Rightarrow> cell list" and M :: "cell set" and h :: int and w :: int where
  start: "reachable en M h w (init h w)"
| reveal: "reachable en M h w st \<Longrightarrow> c \<notin> M \<Longrightarrow>
     add_knowledge n en c (int (card (neighbours (height st) (width st) c \<inter> M))) st = Some st' \<Longrightarrow>
     reachable en M h w st'"

subsection \<open>A game with one false report\<close>

text \<open>On a board of height 3 and width 3 with mines at \<open>(0, 1)\<close> and \<open>(2, 2)\<close>, the
  truthful calls \<^verbatim>\<open>add_knowledge((1, 1), 2)\<close> and \<^verbatim>\<open>add_knowledge((0, 0), 1)\<close> lead to the
  state \<open>board3\<close>: its sentences are over the seven unknown neighbours of \<open>(1, 1)\<close>
  (\<open>ring\<close>), the two unknown neighbours of \<open>(0, 0)\<close> (\<open>corner\<close>) and the other five
  (\<open>far\<close>).  Integrating the false sentence \<open>ring = 5\<close> in that state derives
  \<open>far = 4\<close>, \<open>corner = - 2\<close>, \<open>far = 7\<close>, \<open>corner = - 5\<close> and so on: \<open>pump_far j\<close> and
  \<open>pump_corner j\<close> are the sentences of round \<open>j\<close>, \<open>pump_base @ pump_list j\<close> is
  \<^verbatim>\<open>knowledge\<close> when round \<open>j\<close> starts.\<close>

definition ring :: "cell set" where
  "ring = {(0, 1), (0, 2), (1, 0), (1, 2), (2, 0), (2, 1), (2, 2)}"

definition corner :: "cell set" where
  "corner = {(0, 1), (1, 0)}"

definition far :: "cell set" where
  "far = {(0, 2), (1, 2), (2, 0), (2, 1), (2, 2)}"

definition pump_base :: "Sentence list" where
  "pump_base = [\<lparr>cells = ring, count = 2\<rparr>, \<lparr>cells = corner, count = 1\<rparr>,
                \<lparr>cells = far, count = 1\<rparr>, \<lparr>cells = ring, count = 5\<rparr>]"

definition pump_far :: "nat \<Rightarrow> Sentence" where
  "pump_far j = \<lparr>cells = far, count = 4 + 3 * int j\<rparr>"

definition pump_corner :: "nat \<Rightarrow> Sentence" where
  "pump_corner j = \<lparr>cells = corner, count = - 2 - 3 * int j\<rparr>"

primrec pump_list :: "nat \<Rightarrow> Sentence list" where
  "pump_list 0 = []"
| "pump_list (Suc j) = pump_list j @ [pump_far j, pump_corner j]"

definition board3 :: MinesweeperAI where
  "board3 = \<lparr>height = 3, width = 3, moves_made = {(0, 0), (1, 1)}, mines = {},
             safes = {(0, 0), (1, 1)},
             knowledge = [\<lparr>cells = ring, count = 2\<rparr>, \<lparr>cells = corner, count = 1\<rparr>,
                          \<lparr>cells = far, count = 1\<rparr>]\<rparr>"

section \<open>Properties\<close>

subsection \<open>Enumerations\<close>

lemma enumerates_ascending: "enumerates ascending"
  by (simp add: enumerates_def ascending_def)

lemma enumerates_singleton: "enumerates en \<Longrightarrow> en {c} = [c]"
proof -
  assume "enumerates en"
  then have s: "set (en {c}) = {c}" and d: "distinct (en {c})"
    by (simp_all add: enumerates_def)
  from d have "length (en {c}) = card (set (en {c}))" by (simp add: distinct_card)
  with s have "length (en {c}) = 1" by simp
  then obtain x where "en {c} = [x]" by (cases "en {c}") auto
  with s show ?thesis by simp
qed

subsection \<open>Soundness is preserved\<close>

lemma sound_ciiD: "sound_cii M cii \<Longrightarrow> sound M st \<Longrightarrow> sound_sentence M s \<Longrightarrow> cii s st = Some st' \<Longrightarrow> sound M st'"
  unfolding sound_cii_def by blast

lemma sound_prune_mine:
  assumes "sound_sentence M s" "c \<in> cells s" "c \<in> M"
  shows "sound_sentence M (s\<lparr>cells := cells s - {c}, count := count s - 1\<rparr>)"
proof -
  from assms have fin: "finite (cells s \<inter> M)" and cin: "c \<in> cells s \<inter> M"
    by (simp_all add: sound_sentence_def)
  have eq: "(cells s - {c}) \<inter> M = (cells s \<inter> M) - {c}" by blast
  from fin cin have "card ((cells s \<inter> M) - {c}) = card (cells s \<inter> M) - 1" by simp
  moreover from fin cin have "card (cells s \<inter> M) \<ge> 1"
    by (metis One_nat_def Suc_leI card_gt_0_iff empty_iff)
  ultimately show ?thesis using assms(1) by (simp add: sound_sentence_def eq)
qed

lemma sound_prune_safe:
  assumes "sound_sentence M s" "c \<notin> M"
  shows "sound_sentence M (s\<lparr>cells := cells s - {c}\<rparr>)"
proof -
  from assms(2) have "(cells s - {c}) \<inter> M = cells s \<inter> M" by blast
  with assms(1) show ?thesis by (simp add: sound_sentence_def)
qed

lemma sound_replace:
  assumes "sound M st" "sound_sentence M p"
  shows "sound M (st\<lparr>knowledge := remove1 p ((knowledge st)[i := p])\<rparr>)"
proof -
  have "set (remove1 p ((knowledge st)[i := p])) \<subseteq> insert p (set (knowledge st))"
    using set_remove1_subset set_update_subset_insert by fastforce
  with assms show ?thesis by (auto simp: sound_def)
qed

lemma sound_mark_mine_loop:
  assumes "sound_cii M cii" "c \<in> M"
  shows "sound M st \<Longrightarrow> mark_mine_loop cii n c i st = Some st' \<Longrightarrow> sound M st'"
proof (induction n arbitrary: i st)
  case 0
  then show ?case by simp
next
  case (Suc n)
  show ?case
  proof (cases "i < length (knowledge st)")
    case False
    with Suc.prems show ?thesis by simp
  next
    case inb: True
    show ?thesis
    proof (cases "c \<in> cells (knowledge st ! i)")
      case False
      with inb Suc.prems have "mark_mine_loop cii n c (i + 1) st = Some st'"
        by (simp add: Sentence_mark_mine_def)
      with Suc.IH Suc.prems(1) show ?thesis by blast
    next
      case True
      define p where "p = (knowledge st ! i)\<lparr>cells := cells (knowledge st ! i) - {c}, count := count (knowledge st ! i) - 1\<rparr>"
      define st1 where "st1 = st\<lparr>knowledge := remove1 p ((knowledge st)[i := p])\<rparr>"
      from inb Suc.prems(1) have "sound_sentence M (knowledge st ! i)" by (simp add: sound_def)
      then have sp: "sound_sentence M p" unfolding p_def using True assms(2) by (rule sound_prune_mine)
      then have s1: "sound M st1" unfolding st1_def using Suc.prems(1) sound_replace by blast
      from inb True Suc.prems(2) obtain st2 where c2: "cii p st1 = Some st2"
        and l2: "mark_mine_loop cii n c (i + 1) st2 = Some st'"
        by (auto simp: Sentence_mark_mine_def p_def st1_def split: option.splits)
      from assms(1) s1 sp c2 have "sound M st2" by (rule sound_ciiD)
      with Suc.IH l2 show ?thesis by blast
    qed
  qed
qed

lemma sound_mark_mine:
  assumes "sound_cii M cii" "c \<in> M" "sound M st" "mark_mine cii n c st = Some st'"
  shows "sound M st'"
proof -
  from assms(2,3) have "sound M (st\<lparr>mines := insert c (mines st)\<rparr>)" by (simp add: sound_def)
  with assms show ?thesis unfolding mark_mine_def using sound_mark_mine_loop by blast
qed

lemma sound_mark_safe_loop:
  assumes "sound_cii M cii" "c \<notin> M"
  shows "sound M st \<Longrightarrow> mark_safe_loop cii n c i st = Some st' \<Longrightarrow> sound M st'"
proof (induction n arbitrary: i st)
  case 0
  then show ?case by simp
next
  case (Suc n)
  show ?case
  proof (cases "i < length (knowledge st)")
    case False
    with Suc.prems show ?thesis by simp
  next
    case inb: True
    show ?thesis
    proof (cases "c \<in> cells (knowledge st ! i)")
      case False
      with inb Suc.prems have "mark_safe_loop cii n c (i + 1) st = Some st'"
        by (simp add: Sentence_mark_safe_def)
      with Suc.IH Suc.prems(1) show ?thesis by blast
    next
      case True
      define p where "p = (knowledge st ! i)\<lparr>cells := cells (knowledge st ! i) - {c}\<rparr>"
      define st1 where "st1 = st\<lparr>knowledge := remove1 p ((knowledge st)[i := p])\<rparr>"
      from inb Suc.prems(1) have "sound_sentence M (knowledge st ! i)" by (simp add: sound_def)
      then have sp: "sound_sentence M p" unfolding p_def using assms(2) by (rule sound_prune_safe)
      then have s1: "sound M st1" unfolding st1_def using Suc.prems(1) sound_replace by blast
      from inb True Suc.prems(2) obtain st2 where c2: "cii p st1 = Some st2"
        and l2: "mark_safe_loop cii n c (i + 1) st2 = Some st'"
        by (auto simp: Sentence_mark_safe_def p_def st1_def split: option.splits)
      from assms(1) s1 sp c2 have "sound M st2" by (rule sound_ciiD)
      with Suc.IH l2 show ?thesis by blast
    qed
  qed
qed

lemma sound_mark_safe:
  assumes "sound_cii M cii" "c \<notin> M" "sound M st" "mark_safe cii n c st = Some st'"
  shows "sound M st'"
proof -
  from assms(2,3) have "sound M (st\<lparr>safes := insert c (safes st)\<rparr>)" by (simp add: sound_def)
  with assms show ?thesis unfolding mark_safe_def using sound_mark_safe_loop by blast
qed

lemma sound_mark_safe_each:
  assumes "sound_cii M cii"
  shows "set cs \<inter> M = {} \<Longrightarrow> sound M st \<Longrightarrow> mark_safe_each cii n cs st = Some st' \<Longrightarrow> sound M st'"
proof (induction cs arbitrary: st)
  case Nil
  then show ?case by simp
next
  case (Cons c cs)
  from Cons.prems(3) obtain st1 where m: "mark_safe cii n c st = Some st1"
    and r: "mark_safe_each cii n cs st1 = Some st'"
    by (auto split: option.splits)
  from Cons.prems(1) have "c \<notin> M" by auto
  with assms Cons.prems(2) m have "sound M st1" using sound_mark_safe by blast
  with Cons.IH Cons.prems(1) r show ?case by auto
qed

lemma sound_mark_mine_each:
  assumes "sound_cii M cii"
  shows "set cs \<subseteq> M \<Longrightarrow> sound M st \<Longrightarrow> mark_mine_each cii n cs st = Some st' \<Longrightarrow> sound M st'"
proof (induction cs arbitrary: st)
  case Nil
  then show ?case by simp
next
  case (Cons c cs)
  from Cons.prems(3) obtain st1 where m: "mark_mine cii n c st = Some st1"
    and r: "mark_mine_each cii n cs st1 = Some st'"
    by (auto split: option.splits)
  from Cons.prems(1) have "c \<in> M" by auto
  with assms Cons.prems(2) m have "sound M st1" using sound_mark_mine by blast
  with Cons.IH Cons.prems(1) r show ?case by auto
qed

lemma sound_zero_safe: "sound_sentence M s \<Longrightarrow> count s = 0 \<Longrightarrow> cells s \<inter> M = {}"
  by (auto simp: sound_sentence_def)

lemma sound_full_mine:
  assumes "sound_sentence M s" "count s = int (card (cells s))"
  shows "cells s \<subseteq> M"
proof -
  from assms have "finite (cells s)" "card (cells s \<inter> M) = card (cells s)"
    by (simp_all add: sound_sentence_def)
  then have "cells s \<inter> M = cells s" by (simp add: card_subset_eq)
  then show ?thesis by blast
qed

lemma sound_is_conclusive:
  assumes "sound_cii M cii" "enumerates en" "sound_sentence M s" "sound M st"
    "is_conclusive cii n en s st = Some (b, st')"
  shows "sound M st'"
proof -
  from assms(3) have fin: "finite (cells s)" by (simp add: sound_sentence_def)
  with assms(2) have en: "set (en (cells s)) = cells s" by (simp add: enumerates_def)
  show ?thesis
  proof (cases "truthy (known_safes s)")
    case True
    then have z: "count s = 0" and k: "known_safes s = Some (cells s)"
      by (auto simp: known_safes_def split: if_splits)
    from assms(3) z have "set (en (cells s)) \<inter> M = {}" using en sound_zero_safe by simp
    moreover from True k assms(5) have "mark_safe_each cii n (en (cells s)) st = Some st'"
      by (auto simp: is_conclusive_def split: option.splits)
    ultimately show ?thesis using assms(1,4) sound_mark_safe_each by blast
  next
    case nsafe: False
    show ?thesis
    proof (cases "truthy (known_mines s)")
      case True
      then have z: "count s = int (card (cells s))" and k: "known_mines s = Some (cells s)"
        by (auto simp: known_mines_def split: if_splits)
      from assms(3) z have "set (en (cells s)) \<subseteq> M" using en sound_full_mine by simp
      moreover from nsafe True k assms(5) have "mark_mine_each cii n (en (cells s)) st = Some st'"
        by (auto simp: is_conclusive_def split: option.splits)
      ultimately show ?thesis using assms(1,4) sound_mark_mine_each by blast
    next
      case False
      with nsafe assms(5) have "st' = st" by (simp add: is_conclusive_def)
      with assms(4) show ?thesis by simp
    qed
  qed
qed

lemma sound_difference:
  assumes "sound_sentence M a" "sound_sentence M b" "cells a \<subseteq> cells b"
  shows "sound_sentence M \<lparr>cells = cells b - cells a, count = count b - count a\<rparr>"
proof -
  from assms have fb: "finite (cells b \<inter> M)" by (simp add: sound_sentence_def)
  from assms(3) have sub: "cells a \<inter> M \<subseteq> cells b \<inter> M" by blast
  have eq: "(cells b - cells a) \<inter> M = (cells b \<inter> M) - (cells a \<inter> M)" by blast
  from fb sub have "card ((cells b \<inter> M) - (cells a \<inter> M)) = card (cells b \<inter> M) - card (cells a \<inter> M)"
    by (metis card_Diff_subset finite_subset)
  moreover from fb sub have "card (cells a \<inter> M) \<le> card (cells b \<inter> M)" by (simp add: card_mono)
  ultimately show ?thesis using assms(1,2) by (simp add: sound_sentence_def eq)
qed

lemma sound_make_inferences:
  assumes "sound_sentence M s"
  shows "\<forall>x \<in> set others. sound_sentence M x \<Longrightarrow> \<forall>x \<in> set acc. sound_sentence M x \<Longrightarrow>
     \<forall>x \<in> set (make_inferences s others kn acc). sound_sentence M x"
proof (induction others arbitrary: acc)
  case Nil
  then show ?case by simp
next
  case (Cons other others)
  from Cons.prems(1) have so: "sound_sentence M other" and rest: "\<forall>x \<in> set others. sound_sentence M x"
    by simp_all
  show ?case
  proof (cases "cells s \<subseteq> cells other")
    case True
    define inf where "inf = \<lparr>cells = cells other - cells s, count = count other - count s\<rparr>"
    from assms so True have "sound_sentence M inf" unfolding inf_def by (rule sound_difference)
    with Cons.prems(2) have "\<forall>x \<in> set (if inf \<notin> set acc \<and> inf \<notin> set kn then acc @ [inf] else acc). sound_sentence M x"
      by simp
    from Cons.IH [OF rest this] True show ?thesis by (simp add: inf_def Let_def)
  next
    case ns: False
    show ?thesis
    proof (cases "cells other \<subseteq> cells s")
      case True
      define inf where "inf = \<lparr>cells = cells s - cells other, count = count s - count other\<rparr>"
      from so assms True have "sound_sentence M inf" unfolding inf_def by (rule sound_difference)
      with Cons.prems(2) have "\<forall>x \<in> set (if inf \<notin> set acc \<and> inf \<notin> set kn then acc @ [inf] else acc). sound_sentence M x"
        by simp
      from Cons.IH [OF rest this] ns True show ?thesis by (simp add: inf_def Let_def)
    next
      case False
      with ns Cons.IH [OF rest Cons.prems(2)] show ?thesis by simp
    qed
  qed
qed

lemma sound_integrate_each:
  assumes "sound_cii M cii"
  shows "\<forall>x \<in> set infs. sound_sentence M x \<Longrightarrow> sound M st \<Longrightarrow> integrate_each cii infs st = Some st' \<Longrightarrow> sound M st'"
proof (induction infs arbitrary: st)
  case Nil
  then show ?case by simp
next
  case (Cons x xs)
  from Cons.prems(3) obtain st1 where c: "cii x st = Some st1" and r: "integrate_each cii xs st1 = Some st'"
    by (auto split: option.splits)
  from Cons.prems(1) have "sound_sentence M x" by simp
  with assms Cons.prems(2) c have "sound M st1" using sound_ciiD by blast
  with Cons.IH Cons.prems(1) r show ?case by simp
qed

lemma sound_conclude_infer_integrate:
  assumes "enumerates en"
  shows "sound_cii M (conclude_infer_integrate n en)"
proof (induction n)
  case 0
  show ?case by (simp add: sound_cii_def)
next
  case (Suc n)
  show ?case unfolding sound_cii_def
  proof (intro allI impI)
    fix s st st'
    assume st: "sound M st" and s: "sound_sentence M s"
      and run: "conclude_infer_integrate (Suc n) en s st = Some st'"
    show "sound M st'"
    proof (cases "s \<in> set (knowledge st) \<or> is_empty s")
      case True
      with run st show ?thesis by simp
    next
      case False
      with run obtain b st1 where ic: "is_conclusive (conclude_infer_integrate n en) n en s st = Some (b, st1)"
        by (auto split: option.splits)
      from Suc assms s st ic have s1: "sound M st1" by (rule sound_is_conclusive)
      show ?thesis
      proof (cases b)
        case True
        with False run ic s1 show ?thesis by simp
      next
        case nb: False
        define infs where "infs = make_inferences s (knowledge st1) (knowledge st1) []"
        from s1 have k: "\<forall>x \<in> set (knowledge st1). sound_sentence M x" by (simp add: sound_def)
        have e: "\<forall>x \<in> set []. sound_sentence M x" by simp
        have i: "\<forall>x \<in> set infs. sound_sentence M x"
          unfolding infs_def using s k e by (rule sound_make_inferences)
        from s1 s have a: "sound M (st1\<lparr>knowledge := knowledge st1 @ [s]\<rparr>)" by (simp add: sound_def)
        from False run ic nb have "integrate_each (conclude_infer_integrate n en) infs (st1\<lparr>knowledge := knowledge st1 @ [s]\<rparr>) = Some st'"
          by (simp add: infs_def)
        with Suc i a show ?thesis by (rule sound_integrate_each)
      qed
    qed
  qed
qed

subsection \<open>The board and \<^verbatim>\<open>moves_made\<close> stay, \<^verbatim>\<open>mines\<close> and \<^verbatim>\<open>safes\<close> grow\<close>

lemma extends_refl: "extends st st"
  by (simp add: extends_def)

lemma extends_trans: "extends a b \<Longrightarrow> extends b c \<Longrightarrow> extends a c"
  by (auto simp: extends_def)

lemma extends_knowledge: "extends st (st\<lparr>knowledge := k\<rparr>)"
  by (simp add: extends_def)

lemma extends_mark_mine_loop:
  assumes "extends_cii cii"
  shows "mark_mine_loop cii n c i st = Some st' \<Longrightarrow> extends st st'"
proof (induction n arbitrary: i st)
  case 0
  then show ?case by simp
next
  case (Suc n)
  show ?case
  proof (cases "i < length (knowledge st)")
    case False
    with Suc.prems show ?thesis by (simp add: extends_refl)
  next
    case inb: True
    show ?thesis
    proof (cases "c \<in> cells (knowledge st ! i)")
      case False
      with inb Suc.prems have "mark_mine_loop cii n c (i + 1) st = Some st'"
        by (simp add: Sentence_mark_mine_def)
      then show ?thesis by (rule Suc.IH)
    next
      case True
      define p where "p = (knowledge st ! i)\<lparr>cells := cells (knowledge st ! i) - {c}, count := count (knowledge st ! i) - 1\<rparr>"
      define st1 where "st1 = st\<lparr>knowledge := remove1 p ((knowledge st)[i := p])\<rparr>"
      have e1: "extends st st1" unfolding st1_def by (rule extends_knowledge)
      from inb True Suc.prems obtain st2 where c2: "cii p st1 = Some st2"
        and l2: "mark_mine_loop cii n c (i + 1) st2 = Some st'"
        by (auto simp: Sentence_mark_mine_def p_def st1_def split: option.splits)
      from assms c2 have e2: "extends st1 st2" unfolding extends_cii_def by blast
      from l2 have "extends st2 st'" by (rule Suc.IH)
      with e1 e2 show ?thesis by (blast intro: extends_trans)
    qed
  qed
qed

lemma extends_mark_mine:
  assumes "extends_cii cii" "mark_mine cii n c st = Some st'"
  shows "extends st st' \<and> c \<in> mines st'"
proof -
  from assms(2) have "mark_mine_loop cii n c 0 (st\<lparr>mines := insert c (mines st)\<rparr>) = Some st'"
    by (simp add: mark_mine_def)
  with assms(1) have "extends (st\<lparr>mines := insert c (mines st)\<rparr>) st'" by (rule extends_mark_mine_loop)
  then show ?thesis by (auto simp: extends_def)
qed

lemma extends_mark_safe_loop:
  assumes "extends_cii cii"
  shows "mark_safe_loop cii n c i st = Some st' \<Longrightarrow> extends st st'"
proof (induction n arbitrary: i st)
  case 0
  then show ?case by simp
next
  case (Suc n)
  show ?case
  proof (cases "i < length (knowledge st)")
    case False
    with Suc.prems show ?thesis by (simp add: extends_refl)
  next
    case inb: True
    show ?thesis
    proof (cases "c \<in> cells (knowledge st ! i)")
      case False
      with inb Suc.prems have "mark_safe_loop cii n c (i + 1) st = Some st'"
        by (simp add: Sentence_mark_safe_def)
      then show ?thesis by (rule Suc.IH)
    next
      case True
      define p where "p = (knowledge st ! i)\<lparr>cells := cells (knowledge st ! i) - {c}\<rparr>"
      define st1 where "st1 = st\<lparr>knowledge := remove1 p ((knowledge st)[i := p])\<rparr>"
      have e1: "extends st st1" unfolding st1_def by (rule extends_knowledge)
      from inb True Suc.prems obtain st2 where c2: "cii p st1 = Some st2"
        and l2: "mark_safe_loop cii n c (i + 1) st2 = Some st'"
        by (auto simp: Sentence_mark_safe_def p_def st1_def split: option.splits)
      from assms c2 have e2: "extends st1 st2" unfolding extends_cii_def by blast
      from l2 have "extends st2 st'" by (rule Suc.IH)
      with e1 e2 show ?thesis by (blast intro: extends_trans)
    qed
  qed
qed

lemma extends_mark_safe:
  assumes "extends_cii cii" "mark_safe cii n c st = Some st'"
  shows "extends st st' \<and> c \<in> safes st'"
proof -
  from assms(2) have "mark_safe_loop cii n c 0 (st\<lparr>safes := insert c (safes st)\<rparr>) = Some st'"
    by (simp add: mark_safe_def)
  with assms(1) have "extends (st\<lparr>safes := insert c (safes st)\<rparr>) st'" by (rule extends_mark_safe_loop)
  then show ?thesis by (auto simp: extends_def)
qed

lemma extends_mark_safe_each:
  assumes "extends_cii cii"
  shows "mark_safe_each cii n cs st = Some st' \<Longrightarrow> extends st st'"
proof (induction cs arbitrary: st)
  case Nil
  then show ?case by (simp add: extends_refl)
next
  case (Cons c cs)
  from Cons.prems obtain st1 where m: "mark_safe cii n c st = Some st1"
    and r: "mark_safe_each cii n cs st1 = Some st'"
    by (auto split: option.splits)
  from assms m have "extends st st1" using extends_mark_safe by blast
  moreover from r have "extends st1 st'" by (rule Cons.IH)
  ultimately show ?case by (rule extends_trans)
qed

lemma extends_mark_mine_each:
  assumes "extends_cii cii"
  shows "mark_mine_each cii n cs st = Some st' \<Longrightarrow> extends st st'"
proof (induction cs arbitrary: st)
  case Nil
  then show ?case by (simp add: extends_refl)
next
  case (Cons c cs)
  from Cons.prems obtain st1 where m: "mark_mine cii n c st = Some st1"
    and r: "mark_mine_each cii n cs st1 = Some st'"
    by (auto split: option.splits)
  from assms m have "extends st st1" using extends_mark_mine by blast
  moreover from r have "extends st1 st'" by (rule Cons.IH)
  ultimately show ?case by (rule extends_trans)
qed

lemma extends_is_conclusive:
  assumes "extends_cii cii" "is_conclusive cii n en s st = Some (b, st')"
  shows "extends st st'"
proof (cases "truthy (known_safes s)")
  case True
  with assms(2) have "mark_safe_each cii n (en (the (known_safes s))) st = Some st'"
    by (auto simp: is_conclusive_def split: option.splits)
  with assms(1) show ?thesis by (rule extends_mark_safe_each)
next
  case nsafe: False
  show ?thesis
  proof (cases "truthy (known_mines s)")
    case True
    with nsafe assms(2) have "mark_mine_each cii n (en (the (known_mines s))) st = Some st'"
      by (auto simp: is_conclusive_def split: option.splits)
    with assms(1) show ?thesis by (rule extends_mark_mine_each)
  next
    case False
    with nsafe assms(2) show ?thesis by (auto simp: is_conclusive_def extends_refl)
  qed
qed

lemma extends_integrate_each:
  assumes "extends_cii cii"
  shows "integrate_each cii infs st = Some st' \<Longrightarrow> extends st st'"
proof (induction infs arbitrary: st)
  case Nil
  then show ?case by (simp add: extends_refl)
next
  case (Cons x xs)
  from Cons.prems obtain st1 where c: "cii x st = Some st1" and r: "integrate_each cii xs st1 = Some st'"
    by (auto split: option.splits)
  from assms c have "extends st st1" unfolding extends_cii_def by blast
  moreover from r have "extends st1 st'" by (rule Cons.IH)
  ultimately show ?case by (rule extends_trans)
qed

lemma extends_conclude_infer_integrate: "extends_cii (conclude_infer_integrate n en)"
proof (induction n)
  case 0
  show ?case by (simp add: extends_cii_def)
next
  case (Suc n)
  show ?case unfolding extends_cii_def
  proof (intro allI impI)
    fix s st st'
    assume run: "conclude_infer_integrate (Suc n) en s st = Some st'"
    show "extends st st'"
    proof (cases "s \<in> set (knowledge st) \<or> is_empty s")
      case True
      with run show ?thesis by (auto simp: extends_refl)
    next
      case False
      with run obtain b st1 where ic: "is_conclusive (conclude_infer_integrate n en) n en s st = Some (b, st1)"
        by (auto split: option.splits)
      from Suc ic have e1: "extends st st1" by (rule extends_is_conclusive)
      show ?thesis
      proof (cases b)
        case True
        with False run ic e1 show ?thesis by simp
      next
        case nb: False
        from False run ic nb have "integrate_each (conclude_infer_integrate n en)
            (make_inferences s (knowledge st1) (knowledge st1) []) (st1\<lparr>knowledge := knowledge st1 @ [s]\<rparr>) = Some st'"
          by simp
        with Suc have "extends (st1\<lparr>knowledge := knowledge st1 @ [s]\<rparr>) st'"
          by (rule extends_integrate_each)
        with e1 show ?thesis by (auto simp: extends_def)
      qed
    qed
  qed
qed

subsection \<open>The sentence \<^verbatim>\<open>add_knowledge\<close> builds\<close>

lemma set_block:
  "set (block st c) =
     {(i, j). 0 \<le> i \<and> i < height st \<and> 0 \<le> j \<and> j < width st \<and>
              \<bar>i - fst c\<bar> \<le> 1 \<and> \<bar>j - snd c\<bar> \<le> 1}"
  by (auto simp: block_def)

lemma distinct_block: "distinct (block st c)"
  by (simp add: block_def distinct_product)

lemma neighbours_block: "neighbours (height st) (width st) c = set (block st c) - {c}"
  by (auto simp: neighbours_def set_block)

lemma cells_scan:
  "cells (scan st cs U k) = U \<union> {x \<in> set cs. x \<notin> safes st \<and> x \<notin> mines st}"
  by (induction cs arbitrary: U k) auto

lemma count_scan:
  "count (scan st cs U k) = k - int (length (filter (\<lambda>x. x \<notin> safes st \<and> x \<in> mines st) cs))"
  by (induction cs arbitrary: U k) auto

lemma count_scan_card:
  assumes "distinct cs"
  shows "count (scan st cs U k) = k - int (card {x \<in> set cs. x \<notin> safes st \<and> x \<in> mines st})"
proof -
  from assms have d: "distinct (filter (\<lambda>x. x \<notin> safes st \<and> x \<in> mines st) cs)" by simp
  have "length (filter (\<lambda>x. x \<notin> safes st \<and> x \<in> mines st) cs) =
     card {x \<in> set cs. x \<notin> safes st \<and> x \<in> mines st}"
    using distinct_card [OF d] by simp
  then show ?thesis by (simp add: count_scan)
qed

lemma sound_scan:
  assumes "sound M st" "c \<notin> M" "c \<in> safes st"
  shows "sound_sentence M (scan st (block st c) {} (int (card (neighbours (height st) (width st) c \<inter> M))))"
proof -
  let ?B = "set (block st c)"
  let ?K = "{x \<in> ?B. x \<notin> safes st \<and> x \<in> mines st}"
  let ?U = "{x \<in> ?B. x \<notin> safes st \<and> x \<notin> mines st}"
  from assms(1) have mM: "mines st \<subseteq> M" and sM: "safes st \<inter> M = {}" by (simp_all add: sound_def)
  have finB: "finite ?B" by simp
  from assms(2) have nb: "neighbours (height st) (width st) c \<inter> M = ?B \<inter> M"
    by (auto simp: neighbours_block)
  from mM sM have split: "?B \<inter> M = ?K \<union> (?U \<inter> M)" by auto
  have disj: "?K \<inter> (?U \<inter> M) = {}" by auto
  have "finite ?K" "finite (?U \<inter> M)" by simp_all
  then have "card (?K \<union> (?U \<inter> M)) = card ?K + card (?U \<inter> M)" using disj by (rule card_Un_disjoint)
  with split nb have "int (card (neighbours (height st) (width st) c \<inter> M)) - int (card ?K) = int (card (?U \<inter> M))"
    by simp
  then show ?thesis
    by (simp add: sound_sentence_def cells_scan count_scan_card [OF distinct_block])
qed

lemma sound_add_knowledge:
  assumes "enumerates en" "sound M st" "c \<notin> M"
    "add_knowledge n en c (int (card (neighbours (height st) (width st) c \<inter> M))) st = Some st'"
  shows "sound M st'"
proof -
  let ?cii = "conclude_infer_integrate n en"
  let ?st0 = "st\<lparr>moves_made := insert c (moves_made st)\<rparr>"
  from assms(4) obtain st1 where m: "mark_safe ?cii n c ?st0 = Some st1"
    and r: "conclude_infer_integrate n en (scan st1 (block st1 c) {}
           (int (card (neighbours (height st) (width st) c \<inter> M)))) st1 = Some st'"
    by (auto simp: add_knowledge_def split: option.splits)
  have cii: "sound_cii M ?cii" using assms(1) by (rule sound_conclude_infer_integrate)
  from assms(2) have "sound M ?st0" by (simp add: sound_def)
  with cii assms(3) have s1: "sound M st1" using m by (rule sound_mark_safe)
  from extends_conclude_infer_integrate m have e: "extends ?st0 st1 \<and> c \<in> safes st1"
    by (rule extends_mark_safe)
  then have hw: "height st1 = height st" "width st1 = width st" and cs: "c \<in> safes st1"
    by (simp_all add: extends_def)
  from s1 assms(3) cs have "sound_sentence M (scan st1 (block st1 c) {}
           (int (card (neighbours (height st1) (width st1) c \<inter> M))))"
    by (rule sound_scan)
  with hw have "sound_sentence M (scan st1 (block st1 c) {}
           (int (card (neighbours (height st) (width st) c \<inter> M))))" by simp
  with cii s1 show ?thesis using r by (rule sound_ciiD)
qed

lemma sound_init: "sound M (init h w)"
  by (simp add: sound_def init_def)

lemma reachable_sound:
  assumes "enumerates en"
  shows "reachable en M h w st \<Longrightarrow> sound M st"
proof (induction rule: reachable.induct)
  case start
  show ?case by (rule sound_init)
next
  case (reveal st c n st')
  from assms reveal.IH reveal.hyps(2,3) show ?case by (rule sound_add_knowledge)
qed

lemma sound_bounds:
  assumes "sound_sentence M s"
  shows "0 \<le> count s \<and> count s \<le> int (card (cells s))"
proof -
  from assms have "finite (cells s)" "count s = int (card (cells s \<inter> M))"
    by (simp_all add: sound_sentence_def)
  moreover from this(1) have "card (cells s \<inter> M) \<le> card (cells s)" by (simp add: card_mono)
  ultimately show ?thesis by simp
qed

lemma neighbours_code [code]:
  "neighbours h w c =
     set (List.product (filter (\<lambda>i. 0 \<le> i \<and> i < h) [fst c - 1 .. fst c + 1])
                       (filter (\<lambda>j. 0 \<le> j \<and> j < w) [snd c - 1 .. snd c + 1])) - {c}"
  by (auto simp: neighbours_def)

lemma reachable_example:
  "reachable ascending {(0, 0), (0, 4)} 1 5
     \<lparr>height = 1, width = 5, moves_made = {(0, 1), (0, 2), (0, 3)}, mines = {(0, 0)},
      safes = {(0, 1), (0, 2), (0, 3)}, knowledge = [\<lparr>cells = {(0, 2), (0, 4)}, count = 1\<rparr>]\<rparr>"
proof -
  let ?M = "{(0, 0), (0, 4)} :: cell set"
  let ?s1 = "\<lparr>height = 1, width = 5, moves_made = {(0, 1)}, mines = {}, safes = {(0, 1)},
              knowledge = [\<lparr>cells = {(0, 0), (0, 2)}, count = 1\<rparr>]\<rparr>"
  let ?s2 = "\<lparr>height = 1, width = 5, moves_made = {(0, 1), (0, 3)}, mines = {}, safes = {(0, 1), (0, 3)},
              knowledge = [\<lparr>cells = {(0, 0), (0, 2)}, count = 1\<rparr>, \<lparr>cells = {(0, 2), (0, 4)}, count = 1\<rparr>]\<rparr>"
  let ?s3 = "\<lparr>height = 1, width = 5, moves_made = {(0, 1), (0, 2), (0, 3)}, mines = {(0, 0)},
      safes = {(0, 1), (0, 2), (0, 3)}, knowledge = [\<lparr>cells = {(0, 2), (0, 4)}, count = 1\<rparr>]\<rparr>"
  have r0: "reachable ascending ?M 1 5 (init 1 5)" by (rule reachable.start)
  have m1: "(0, 1) \<notin> ?M" and m2: "(0, 3) \<notin> ?M" and m3: "(0, 2) \<notin> ?M" by simp_all
  have a1: "add_knowledge 4 ascending (0, 1)
      (int (card (neighbours (height (init 1 5)) (width (init 1 5)) (0, 1) \<inter> ?M))) (init 1 5) = Some ?s1"
    by code_simp
  have a2: "add_knowledge 4 ascending (0, 3)
      (int (card (neighbours (height ?s1) (width ?s1) (0, 3) \<inter> ?M))) ?s1 = Some ?s2"
    by code_simp
  have a3: "add_knowledge 4 ascending (0, 2)
      (int (card (neighbours (height ?s2) (width ?s2) (0, 2) \<inter> ?M))) ?s2 = Some ?s3"
    by code_simp
  from r0 m1 a1 have r1: "reachable ascending ?M 1 5 ?s1" by (rule reachable.reveal)
  from r1 m2 a2 have r2: "reachable ascending ?M 1 5 ?s2" by (rule reachable.reveal)
  from r2 m3 a3 show ?thesis by (rule reachable.reveal)
qed

subsection \<open>Only sentences that are not resolvable enter \<^verbatim>\<open>knowledge\<close>\<close>

lemma set_remove1_update: "i < length xs \<Longrightarrow> set (remove1 p (xs[i := p])) \<subseteq> set xs"
proof (induction xs arbitrary: i)
  case Nil
  then show ?case by simp
next
  case (Cons x xs)
  show ?case
  proof (cases i)
    case 0
    then show ?thesis by auto
  next
    case (Suc j)
    with Cons.prems have j: "j < length xs" by simp
    show ?thesis
    proof (cases "p = x")
      case True
      have "set (xs[j := p]) \<subseteq> insert p (set xs)" by (rule set_update_subset_insert)
      with True Suc show ?thesis by auto
    next
      case False
      with Suc Cons.IH [OF j] show ?thesis by auto
    qed
  qed
qed

lemma adds_unresolvedD:
  "adds_unresolved cii \<Longrightarrow> cii s st = Some st' \<Longrightarrow> x \<in> set (knowledge st') \<Longrightarrow>
   x \<in> set (knowledge st) \<or> \<not> resolvable x"
  unfolding adds_unresolved_def by blast

lemma adds_mark_mine_loop:
  assumes "adds_unresolved cii"
  shows "mark_mine_loop cii n c i st = Some st' \<Longrightarrow>
         set (knowledge st') \<subseteq> set (knowledge st) \<union> {x. \<not> resolvable x}"
proof (induction n arbitrary: i st)
  case 0
  then show ?case by simp
next
  case (Suc n)
  show ?case
  proof (cases "i < length (knowledge st)")
    case False
    with Suc.prems show ?thesis by simp
  next
    case inb: True
    show ?thesis
    proof (cases "c \<in> cells (knowledge st ! i)")
      case False
      with inb Suc.prems have "mark_mine_loop cii n c (i + 1) st = Some st'"
        by (simp add: Sentence_mark_mine_def)
      then show ?thesis by (rule Suc.IH)
    next
      case True
      define p where "p = (knowledge st ! i)\<lparr>cells := cells (knowledge st ! i) - {c}, count := count (knowledge st ! i) - 1\<rparr>"
      define st1 where "st1 = st\<lparr>knowledge := remove1 p ((knowledge st)[i := p])\<rparr>"
      from inb have k1: "set (knowledge st1) \<subseteq> set (knowledge st)"
        by (simp add: st1_def set_remove1_update)
      from inb True Suc.prems obtain st2 where c2: "cii p st1 = Some st2"
        and l2: "mark_mine_loop cii n c (i + 1) st2 = Some st'"
        by (auto simp: Sentence_mark_mine_def p_def st1_def split: option.splits)
      from assms c2 have k2: "set (knowledge st2) \<subseteq> set (knowledge st1) \<union> {x. \<not> resolvable x}"
        unfolding adds_unresolved_def by blast
      from l2 have "set (knowledge st') \<subseteq> set (knowledge st2) \<union> {x. \<not> resolvable x}"
        by (rule Suc.IH)
      with k1 k2 show ?thesis by blast
    qed
  qed
qed

lemma adds_mark_mine:
  assumes "adds_unresolved cii" "mark_mine cii n c st = Some st'"
  shows "set (knowledge st') \<subseteq> set (knowledge st) \<union> {x. \<not> resolvable x}"
  using adds_mark_mine_loop [OF assms(1), of n c 0 "st\<lparr>mines := insert c (mines st)\<rparr>" st'] assms(2)
  by (simp add: mark_mine_def)

lemma adds_mark_safe_loop:
  assumes "adds_unresolved cii"
  shows "mark_safe_loop cii n c i st = Some st' \<Longrightarrow>
         set (knowledge st') \<subseteq> set (knowledge st) \<union> {x. \<not> resolvable x}"
proof (induction n arbitrary: i st)
  case 0
  then show ?case by simp
next
  case (Suc n)
  show ?case
  proof (cases "i < length (knowledge st)")
    case False
    with Suc.prems show ?thesis by simp
  next
    case inb: True
    show ?thesis
    proof (cases "c \<in> cells (knowledge st ! i)")
      case False
      with inb Suc.prems have "mark_safe_loop cii n c (i + 1) st = Some st'"
        by (simp add: Sentence_mark_safe_def)
      then show ?thesis by (rule Suc.IH)
    next
      case True
      define p where "p = (knowledge st ! i)\<lparr>cells := cells (knowledge st ! i) - {c}\<rparr>"
      define st1 where "st1 = st\<lparr>knowledge := remove1 p ((knowledge st)[i := p])\<rparr>"
      from inb have k1: "set (knowledge st1) \<subseteq> set (knowledge st)"
        by (simp add: st1_def set_remove1_update)
      from inb True Suc.prems obtain st2 where c2: "cii p st1 = Some st2"
        and l2: "mark_safe_loop cii n c (i + 1) st2 = Some st'"
        by (auto simp: Sentence_mark_safe_def p_def st1_def split: option.splits)
      from assms c2 have k2: "set (knowledge st2) \<subseteq> set (knowledge st1) \<union> {x. \<not> resolvable x}"
        unfolding adds_unresolved_def by blast
      from l2 have "set (knowledge st') \<subseteq> set (knowledge st2) \<union> {x. \<not> resolvable x}"
        by (rule Suc.IH)
      with k1 k2 show ?thesis by blast
    qed
  qed
qed

lemma adds_mark_safe:
  assumes "adds_unresolved cii" "mark_safe cii n c st = Some st'"
  shows "set (knowledge st') \<subseteq> set (knowledge st) \<union> {x. \<not> resolvable x}"
  using adds_mark_safe_loop [OF assms(1), of n c 0 "st\<lparr>safes := insert c (safes st)\<rparr>" st'] assms(2)
  by (simp add: mark_safe_def)

lemma adds_mark_safe_each:
  assumes "adds_unresolved cii"
  shows "mark_safe_each cii n cs st = Some st' \<Longrightarrow>
         set (knowledge st') \<subseteq> set (knowledge st) \<union> {x. \<not> resolvable x}"
proof (induction cs arbitrary: st)
  case Nil
  then show ?case by auto
next
  case (Cons c cs)
  from Cons.prems obtain st1 where m: "mark_safe cii n c st = Some st1"
    and r: "mark_safe_each cii n cs st1 = Some st'"
    by (auto split: option.splits)
  from assms m have "set (knowledge st1) \<subseteq> set (knowledge st) \<union> {x. \<not> resolvable x}"
    by (rule adds_mark_safe)
  moreover from r have "set (knowledge st') \<subseteq> set (knowledge st1) \<union> {x. \<not> resolvable x}"
    by (rule Cons.IH)
  ultimately show ?case by blast
qed

lemma adds_mark_mine_each:
  assumes "adds_unresolved cii"
  shows "mark_mine_each cii n cs st = Some st' \<Longrightarrow>
         set (knowledge st') \<subseteq> set (knowledge st) \<union> {x. \<not> resolvable x}"
proof (induction cs arbitrary: st)
  case Nil
  then show ?case by auto
next
  case (Cons c cs)
  from Cons.prems obtain st1 where m: "mark_mine cii n c st = Some st1"
    and r: "mark_mine_each cii n cs st1 = Some st'"
    by (auto split: option.splits)
  from assms m have "set (knowledge st1) \<subseteq> set (knowledge st) \<union> {x. \<not> resolvable x}"
    by (rule adds_mark_mine)
  moreover from r have "set (knowledge st') \<subseteq> set (knowledge st1) \<union> {x. \<not> resolvable x}"
    by (rule Cons.IH)
  ultimately show ?case by blast
qed

lemma adds_is_conclusive:
  assumes "adds_unresolved cii" "is_conclusive cii n en s st = Some (b, st')"
  shows "set (knowledge st') \<subseteq> set (knowledge st) \<union> {x. \<not> resolvable x}"
proof (cases "truthy (known_safes s)")
  case True
  with assms(2) have "mark_safe_each cii n (en (the (known_safes s))) st = Some st'"
    by (auto simp: is_conclusive_def split: option.splits)
  with assms(1) show ?thesis by (rule adds_mark_safe_each)
next
  case nsafe: False
  show ?thesis
  proof (cases "truthy (known_mines s)")
    case True
    with nsafe assms(2) have "mark_mine_each cii n (en (the (known_mines s))) st = Some st'"
      by (auto simp: is_conclusive_def split: option.splits)
    with assms(1) show ?thesis by (rule adds_mark_mine_each)
  next
    case False
    with nsafe assms(2) show ?thesis by (auto simp: is_conclusive_def)
  qed
qed

lemma is_conclusive_False:
  assumes "is_conclusive cii n en s st = Some (False, st')"
  shows "st' = st \<and> \<not> truthy (known_safes s) \<and> \<not> truthy (known_mines s)"
  using assms by (auto simp: is_conclusive_def split: if_splits option.splits)

lemma not_truthy_unresolved:
  assumes "\<not> truthy (known_safes s)" "\<not> truthy (known_mines s)" "\<not> is_empty s"
  shows "\<not> resolvable s"
  using assms by (auto simp: known_safes_def known_mines_def is_empty_def resolvable_def split: if_splits)

lemma adds_integrate_each:
  assumes "adds_unresolved cii"
  shows "integrate_each cii infs st = Some st' \<Longrightarrow>
         set (knowledge st') \<subseteq> set (knowledge st) \<union> {x. \<not> resolvable x}"
proof (induction infs arbitrary: st)
  case Nil
  then show ?case by auto
next
  case (Cons x xs)
  from Cons.prems obtain st1 where c: "cii x st = Some st1" and r: "integrate_each cii xs st1 = Some st'"
    by (auto split: option.splits)
  from assms c have "set (knowledge st1) \<subseteq> set (knowledge st) \<union> {x. \<not> resolvable x}"
    unfolding adds_unresolved_def by blast
  moreover from r have "set (knowledge st') \<subseteq> set (knowledge st1) \<union> {x. \<not> resolvable x}"
    by (rule Cons.IH)
  ultimately show ?case by blast
qed

lemma adds_conclude_infer_integrate: "adds_unresolved (conclude_infer_integrate n en)"
proof (induction n)
  case 0
  show ?case by (simp add: adds_unresolved_def)
next
  case (Suc n)
  show ?case unfolding adds_unresolved_def
  proof (intro allI impI)
    fix s st st'
    assume run: "conclude_infer_integrate (Suc n) en s st = Some st'"
    show "set (knowledge st') \<subseteq> set (knowledge st) \<union> {x. \<not> resolvable x}"
    proof (cases "s \<in> set (knowledge st) \<or> is_empty s")
      case True
      with run show ?thesis by auto
    next
      case False
      with run obtain b st1 where ic: "is_conclusive (conclude_infer_integrate n en) n en s st = Some (b, st1)"
        by (auto split: option.splits)
      from Suc ic have k1: "set (knowledge st1) \<subseteq> set (knowledge st) \<union> {x. \<not> resolvable x}"
        by (rule adds_is_conclusive)
      show ?thesis
      proof (cases b)
        case True
        with False run ic k1 show ?thesis by simp
      next
        case nb: False
        from ic nb have "is_conclusive (conclude_infer_integrate n en) n en s st = Some (False, st1)"
          by simp
        from is_conclusive_False [OF this]
        have eq: "st1 = st" and nt: "\<not> truthy (known_safes s)" "\<not> truthy (known_mines s)"
          by simp_all
        from nt False have ur: "\<not> resolvable s" using not_truthy_unresolved by blast
        from False run ic nb have "integrate_each (conclude_infer_integrate n en)
            (make_inferences s (knowledge st1) (knowledge st1) []) (st1\<lparr>knowledge := knowledge st1 @ [s]\<rparr>) = Some st'"
          by simp
        with Suc have "set (knowledge st') \<subseteq> set (knowledge (st1\<lparr>knowledge := knowledge st1 @ [s]\<rparr>)) \<union> {x. \<not> resolvable x}"
          by (rule adds_integrate_each)
        with ur eq show ?thesis by auto
      qed
    qed
  qed
qed

subsection \<open>The inference loop\<close>



subsection \<open>A false report can keep the recursion going for ever\<close>

text \<open>The list of inferences starts with the inferences already collected.\<close>

lemma make_inferences_prefix: "\<exists>rest. make_inferences s others kn acc = acc @ rest"
proof (induction others arbitrary: acc)
  case Nil
  show ?case by simp
next
  case (Cons other others)
  have e: "\<exists>r. (if x \<notin> set acc \<and> x \<notin> set kn then acc @ [x] else acc) = acc @ r" for x
    by simp
  have step: "\<exists>rest. make_inferences s others kn
                 (if x \<notin> set acc \<and> x \<notin> set kn then acc @ [x] else acc) = acc @ rest" for x
  proof -
    from e obtain r where r: "(if x \<notin> set acc \<and> x \<notin> set kn then acc @ [x] else acc) = acc @ r"
      by blast
    from Cons.IH [of "acc @ r"] obtain rest where
      "make_inferences s others kn (acc @ r) = (acc @ r) @ rest" by blast
    with r show ?thesis by simp
  qed
  show ?case
  proof (cases "cells s \<subseteq> cells other")
    case True
    then have "make_inferences s (other # others) kn acc =
       make_inferences s others kn
         (if \<lparr>cells = cells other - cells s, count = count other - count s\<rparr> \<notin> set acc \<and>
             \<lparr>cells = cells other - cells s, count = count other - count s\<rparr> \<notin> set kn
          then acc @ [\<lparr>cells = cells other - cells s, count = count other - count s\<rparr>] else acc)"
      by (simp only: make_inferences.simps Let_def if_True)
    with step show ?thesis by (simp only:)
  next
    case ns: False
    show ?thesis
    proof (cases "cells other \<subseteq> cells s")
      case True
      with ns have "make_inferences s (other # others) kn acc =
         make_inferences s others kn
           (if \<lparr>cells = cells s - cells other, count = count s - count other\<rparr> \<notin> set acc \<and>
               \<lparr>cells = cells s - cells other, count = count s - count other\<rparr> \<notin> set kn
            then acc @ [\<lparr>cells = cells s - cells other, count = count s - count other\<rparr>] else acc)"
        by (simp only: make_inferences.simps Let_def if_True if_False)
      with step show ?thesis by (simp only:)
    next
      case False
      with ns have "make_inferences s (other # others) kn acc = make_inferences s others kn acc"
        by (simp only: make_inferences.simps if_False)
      with Cons.IH [of acc] show ?thesis by (simp only:)
    qed
  qed
qed

lemma make_inferences_new:
  assumes "cells s \<subseteq> cells other"
    and "\<lparr>cells = cells other - cells s, count = count other - count s\<rparr> = i"
    and "i \<notin> set acc" "i \<notin> set kn"
  shows "make_inferences s (other # others) kn acc = make_inferences s others kn (acc @ [i])"
  using assms by (simp add: Let_def)

lemma make_inferences_known:
  assumes "cells s \<subseteq> cells other"
    and "\<lparr>cells = cells other - cells s, count = count other - count s\<rparr> \<in> set kn"
  shows "make_inferences s (other # others) kn acc = make_inferences s others kn acc"
  using assms by (simp add: Let_def)

lemma make_inferences_new_rev:
  assumes "\<not> cells s \<subseteq> cells other" "cells other \<subseteq> cells s"
    and "\<lparr>cells = cells s - cells other, count = count s - count other\<rparr> = i"
    and "i \<notin> set acc" "i \<notin> set kn"
  shows "make_inferences s (other # others) kn acc = make_inferences s others kn (acc @ [i])"
  using assms by (simp add: Let_def)

lemma make_inferences_skip:
  assumes "\<not> cells s \<subseteq> cells other" "\<not> cells other \<subseteq> cells s"
  shows "make_inferences s (other # others) kn acc = make_inferences s others kn acc"
  using assms by simp

lemma ring_far: "ring - far = corner" and ring_corner: "ring - corner = far"
  and corner_ring: "corner \<subseteq> ring" and far_ring: "far \<subseteq> ring"
  and ring_not_corner: "\<not> ring \<subseteq> corner" and ring_not_far: "\<not> ring \<subseteq> far"
  and corner_not_far: "\<not> corner \<subseteq> far" and far_not_corner: "\<not> far \<subseteq> corner"
  and corner_not_empty: "corner \<noteq> {}"
  and far_not_empty: "far \<noteq> {}" and ring_not_empty: "ring \<noteq> {}"
  and card_far: "card far = 5" and card_corner: "card corner = 2" and card_ring: "card ring = 7"
  by (auto simp: ring_def far_def corner_def)

lemma far_not_ring: "far \<noteq> ring" and corner_not_ring: "corner \<noteq> ring"
  and far_corner_differ: "far \<noteq> corner"
  using ring_not_far ring_not_corner far_not_corner by blast+

lemmas pump_sets = ring_far ring_corner corner_ring far_ring ring_not_corner ring_not_far
  corner_not_far far_not_corner far_not_ring corner_not_ring far_corner_differ
  far_corner_differ [symmetric] far_not_ring [symmetric] corner_not_ring [symmetric]
  corner_not_empty far_not_empty ring_not_empty
  corner_not_empty [symmetric] far_not_empty [symmetric] ring_not_empty [symmetric]

lemma set_pump_list: "set (pump_list j) = pump_far ` {..<j} \<union> pump_corner ` {..<j}"
  by (induction j) (auto simp: lessThan_Suc)

lemma pump_far_new: "pump_far j \<notin> set (pump_base @ pump_list j)"
  by (auto simp: set_pump_list pump_base_def pump_far_def pump_corner_def pump_sets)

lemma pump_corner_new: "pump_corner j \<notin> set (pump_base @ pump_list j @ [pump_far j])"
  by (auto simp: set_pump_list pump_base_def pump_far_def pump_corner_def pump_sets)

lemma pump_far_next_new: "pump_far (Suc j) \<notin> set (pump_base @ pump_list j @ [pump_far j])"
  by (auto simp: set_pump_list pump_base_def pump_far_def pump_corner_def pump_sets)

lemma pump_empty_new: "\<lparr>cells = {}, count = c\<rparr> \<notin> set (pump_base @ pump_list j @ [pump_far j])"
  by (auto simp: set_pump_list pump_base_def pump_far_def pump_corner_def pump_sets)

lemma pump_far_inferences:
  "\<exists>rest. make_inferences (pump_far j) (pump_base @ pump_list j) (pump_base @ pump_list j) [] =
     pump_corner j # rest"
proof -
  let ?Y = "\<lparr>cells = ring, count = 2\<rparr>"
  let ?kn = "pump_base @ pump_list j"
  obtain tl where kn: "?kn = ?Y # tl" by (simp add: pump_base_def)
  have s: "cells (pump_far j) \<subseteq> cells ?Y" by (simp add: pump_far_def pump_sets)
  have i: "\<lparr>cells = cells ?Y - cells (pump_far j), count = count ?Y - count (pump_far j)\<rparr> = pump_corner j"
    by (simp add: pump_corner_def pump_far_def pump_sets)
  have n: "pump_corner j \<notin> set ?kn"
    by (auto simp: set_pump_list pump_base_def pump_far_def pump_corner_def pump_sets)
  have e: "pump_corner j \<notin> set []" by simp
  from make_inferences_new [OF s i e n, of tl]
  have "make_inferences (pump_far j) (?Y # tl) ?kn [] = make_inferences (pump_far j) tl ?kn [pump_corner j]"
    by simp
  with make_inferences_prefix [of "pump_far j" tl ?kn "[pump_corner j]"] kn
  show ?thesis by auto
qed

lemma pump_corner_inferences_from:
  assumes "pump_far j \<in> set kn" "\<lparr>cells = {}, count = 3 + 3 * int j\<rparr> \<notin> set kn"
    and "pump_far (Suc j) \<notin> set kn"
  shows "\<exists>rest. make_inferences (pump_corner j)
           (\<lparr>cells = ring, count = 2\<rparr> # \<lparr>cells = corner, count = 1\<rparr> #
            \<lparr>cells = far, count = 1\<rparr> # \<lparr>cells = ring, count = 5\<rparr> # others) kn [] =
         \<lparr>cells = {}, count = 3 + 3 * int j\<rparr> # pump_far (Suc j) # rest"
proof -
  let ?Y = "\<lparr>cells = ring, count = 2\<rparr>"
  let ?T = "\<lparr>cells = corner, count = 1\<rparr>"
  let ?R = "\<lparr>cells = far, count = 1\<rparr>"
  let ?Y' = "\<lparr>cells = ring, count = 5\<rparr>"
  let ?e = "\<lparr>cells = {}, count = 3 + 3 * int j\<rparr>"
  let ?s = "pump_corner j"
  have c: "cells ?s = corner" by (simp add: pump_corner_def)
  have "make_inferences ?s (?Y # ?T # ?R # ?Y' # others) kn [] =
           make_inferences ?s (?T # ?R # ?Y' # others) kn []"
  proof (rule make_inferences_known)
    show "cells ?s \<subseteq> cells ?Y" by (simp add: c pump_sets)
    have "\<lparr>cells = cells ?Y - cells ?s, count = count ?Y - count ?s\<rparr> = pump_far j"
      by (simp add: pump_corner_def pump_far_def pump_sets)
    with assms(1) show "\<lparr>cells = cells ?Y - cells ?s, count = count ?Y - count ?s\<rparr> \<in> set kn"
      by (simp only:)
  qed
  also have "\<dots> = make_inferences ?s (?R # ?Y' # others) kn ([] @ [?e])"
  proof (rule make_inferences_new)
    show "cells ?s \<subseteq> cells ?T" by (simp add: c)
    show "\<lparr>cells = cells ?T - cells ?s, count = count ?T - count ?s\<rparr> = ?e"
      by (simp add: pump_corner_def)
    show "?e \<notin> set []" by simp
    show "?e \<notin> set kn" by (rule assms(2))
  qed
  also have "\<dots> = make_inferences ?s (?Y' # others) kn ([] @ [?e])"
    by (rule make_inferences_skip) (simp_all add: c pump_sets)
  also have "\<dots> = make_inferences ?s others kn (([] @ [?e]) @ [pump_far (Suc j)])"
  proof (rule make_inferences_new)
    show "cells ?s \<subseteq> cells ?Y'" by (simp add: c pump_sets)
    show "\<lparr>cells = cells ?Y' - cells ?s, count = count ?Y' - count ?s\<rparr> = pump_far (Suc j)"
      by (simp add: pump_corner_def pump_far_def pump_sets)
    show "pump_far (Suc j) \<notin> set ([] @ [?e])" by (simp add: pump_far_def pump_sets)
    show "pump_far (Suc j) \<notin> set kn" by (rule assms(3))
  qed
  finally have f: "make_inferences ?s (?Y # ?T # ?R # ?Y' # others) kn [] =
      make_inferences ?s others kn (([] @ [?e]) @ [pump_far (Suc j)])" .
  from make_inferences_prefix [of ?s others kn "([] @ [?e]) @ [pump_far (Suc j)]"]
  obtain rest where "make_inferences ?s others kn (([] @ [?e]) @ [pump_far (Suc j)]) =
      (([] @ [?e]) @ [pump_far (Suc j)]) @ rest"
    by blast
  with f have "make_inferences ?s (?Y # ?T # ?R # ?Y' # others) kn [] = ?e # pump_far (Suc j) # rest"
    by (simp only: append_Nil append_Cons)
  then show ?thesis by blast
qed

lemma pump_corner_inferences:
  "\<exists>rest. make_inferences (pump_corner j) (pump_base @ pump_list j @ [pump_far j])
       (pump_base @ pump_list j @ [pump_far j]) [] =
     \<lparr>cells = {}, count = 3 + 3 * int j\<rparr> # pump_far (Suc j) # rest"
proof -
  let ?kn = "pump_base @ pump_list j @ [pump_far j]"
  have k: "pump_far j \<in> set ?kn" by simp
  from pump_corner_inferences_from [OF k pump_empty_new pump_far_next_new, of "pump_list j @ [pump_far j]"]
  show ?thesis by (simp add: pump_base_def)
qed

lemma pump_far_count: "4 + 3 * int j \<noteq> 5" "4 + 3 * int j \<noteq> 0"
  by presburger+

lemma pump_inconclusive:
  "is_conclusive cii n en (pump_far j) st = Some (False, st)"
  "is_conclusive cii n en (pump_corner j) st = Some (False, st)"
  by (simp_all add: is_conclusive_def known_safes_def known_mines_def pump_far_def pump_corner_def
      card_far card_corner pump_far_count)

lemma integrate_empty: "conclude_infer_integrate n en \<lparr>cells = {}, count = c\<rparr> st = None \<or>
   conclude_infer_integrate n en \<lparr>cells = {}, count = c\<rparr> st = Some st"
  by (cases n) (simp_all add: is_empty_def)

lemma pump_diverges:
  "(\<forall>j st. knowledge st = pump_base @ pump_list j \<longrightarrow>
       conclude_infer_integrate n en (pump_far j) st = None) \<and>
   (\<forall>j st. knowledge st = pump_base @ pump_list j @ [pump_far j] \<longrightarrow>
       conclude_infer_integrate n en (pump_corner j) st = None)"
proof (induction n)
  case 0
  show ?case by simp
next
  case (Suc n)
  show ?case
  proof (intro conjI allI impI)
    fix j and st :: MinesweeperAI
    assume k: "knowledge st = pump_base @ pump_list j"
    from pump_far_inferences [of j] obtain rest where
      r: "make_inferences (pump_far j) (pump_base @ pump_list j) (pump_base @ pump_list j) [] =
            pump_corner j # rest" by blast
    have ne: "\<not> is_empty (pump_far j)" by (simp add: is_empty_def pump_far_def pump_sets)
    from Suc have "conclude_infer_integrate n en (pump_corner j)
        (st\<lparr>knowledge := knowledge st @ [pump_far j]\<rparr>) = None"
      using k by simp
    with k r ne pump_far_new [of j] show "conclude_infer_integrate (Suc n) en (pump_far j) st = None"
      by (simp add: pump_inconclusive)
  next
    fix j and st :: MinesweeperAI
    assume k: "knowledge st = pump_base @ pump_list j @ [pump_far j]"
    let ?e = "\<lparr>cells = {}, count = 3 + 3 * int j\<rparr>"
    let ?st1 = "st\<lparr>knowledge := knowledge st @ [pump_corner j]\<rparr>"
    from pump_corner_inferences [of j] obtain rest where
      r: "make_inferences (pump_corner j) (pump_base @ pump_list j @ [pump_far j])
            (pump_base @ pump_list j @ [pump_far j]) [] = ?e # pump_far (Suc j) # rest" by blast
    have ne: "\<not> is_empty (pump_corner j)" by (simp add: is_empty_def pump_corner_def pump_sets)
    from Suc have d: "conclude_infer_integrate n en (pump_far (Suc j)) ?st1 = None"
      using k by simp
    have "integrate_each (conclude_infer_integrate n en) (?e # pump_far (Suc j) # rest) ?st1 = None"
      using integrate_empty [of n en "3 + 3 * int j" ?st1] d by auto
    with k r ne pump_corner_new [of j] show "conclude_infer_integrate (Suc n) en (pump_corner j) st = None"
      by (simp add: pump_inconclusive)
  qed
qed

lemma ring_inferences:
  "\<exists>rest. make_inferences \<lparr>cells = ring, count = 5\<rparr> (knowledge board3) (knowledge board3) [] =
     \<lparr>cells = {}, count = - 3\<rparr> # pump_far 0 # rest"
proof -
  let ?Y = "\<lparr>cells = ring, count = 2\<rparr>"
  let ?T = "\<lparr>cells = corner, count = 1\<rparr>"
  let ?R = "\<lparr>cells = far, count = 1\<rparr>"
  let ?s = "\<lparr>cells = ring, count = 5\<rparr>"
  let ?e = "\<lparr>cells = {}, count = - 3\<rparr>"
  define kn where "kn = knowledge board3"
  have e: "?e \<notin> set kn" and f: "pump_far 0 \<notin> set kn"
    by (simp_all add: kn_def board3_def pump_far_def pump_sets)
  have "make_inferences ?s (?Y # [?T, ?R]) kn [] = make_inferences ?s [?T, ?R] kn ([] @ [?e])"
    using e by (intro make_inferences_new) simp_all
  also have "\<dots> = make_inferences ?s [?R] kn (([] @ [?e]) @ [pump_far 0])"
    using f by (intro make_inferences_new_rev) (simp_all add: pump_sets pump_far_def)
  finally have g: "make_inferences ?s (?Y # [?T, ?R]) kn [] =
      make_inferences ?s [?R] kn (([] @ [?e]) @ [pump_far 0])" .
  from make_inferences_prefix [of ?s "[?R]" kn "([] @ [?e]) @ [pump_far 0]"]
  obtain rest where "make_inferences ?s [?R] kn (([] @ [?e]) @ [pump_far 0]) =
      (([] @ [?e]) @ [pump_far 0]) @ rest"
    by blast
  with g have "make_inferences ?s [?Y, ?T, ?R] kn [] = ?e # pump_far 0 # rest"
    by (simp only: append_Nil append_Cons)
  moreover have "knowledge board3 = [?Y, ?T, ?R]" by (simp add: board3_def)
  ultimately show ?thesis unfolding kn_def by (simp only:) blast
qed

theorem integrate_diverges:
  "conclude_infer_integrate n en \<lparr>cells = ring, count = 5\<rparr> board3 = None"
proof (cases n)
  case 0
  then show ?thesis by simp
next
  case (Suc m)
  let ?s = "\<lparr>cells = ring, count = 5\<rparr>"
  let ?st1 = "board3\<lparr>knowledge := knowledge board3 @ [?s]\<rparr>"
  from ring_inferences obtain rest where
    r: "make_inferences ?s (knowledge board3) (knowledge board3) [] =
          \<lparr>cells = {}, count = - 3\<rparr> # pump_far 0 # rest" by blast
  have ns: "?s \<notin> set (knowledge board3)" by (simp add: board3_def pump_sets)
  have ne: "\<not> is_empty ?s" by (simp add: is_empty_def pump_sets)
  have nc: "is_conclusive (conclude_infer_integrate m en) m en ?s board3 = Some (False, board3)"
    by (simp add: is_conclusive_def known_safes_def known_mines_def card_ring)
  have k: "knowledge ?st1 = pump_base @ pump_list 0" by (simp add: board3_def pump_base_def)
  from pump_diverges [of m en] have "\<forall>j st. knowledge st = pump_base @ pump_list j \<longrightarrow>
       conclude_infer_integrate m en (pump_far j) st = None" by (rule conjunct1)
  with k have d: "conclude_infer_integrate m en (pump_far 0) ?st1 = None" by blast
  have "integrate_each (conclude_infer_integrate m en) (\<lparr>cells = {}, count = - 3\<rparr> # pump_far 0 # rest) ?st1 = None"
    using integrate_empty [of m en "- 3" ?st1] d by auto
  with Suc r ns ne nc show ?thesis by simp
qed

text \<open>The state \<open>board3\<close> is reached by truthful reports, and reporting the count 5 for
  the cell \<open>(1, 1)\<close> in that state does not return, whatever the fuel.\<close>

lemma mark_safe_loop_untouched:
  assumes "\<forall>s \<in> set (knowledge st). c \<notin> cells s"
  shows "mark_safe_loop cii n c i st = None \<or> mark_safe_loop cii n c i st = Some st"
proof (induction n arbitrary: i)
  case 0
  show ?case by simp
next
  case (Suc n)
  show ?case
  proof (cases "i < length (knowledge st)")
    case True
    with assms have "c \<notin> cells (knowledge st ! i)" by simp
    with True Suc [of "i + 1"] show ?thesis by (simp add: Sentence_mark_safe_def)
  next
    case False
    then show ?thesis by simp
  qed
qed

lemma board3_reachable: "reachable ascending {(0, 1), (2, 2)} 3 3 board3"
proof -
  let ?M = "{(0, 1), (2, 2)} :: cell set"
  let ?s1 = "\<lparr>height = 3, width = 3, moves_made = {(1, 1)}, mines = {}, safes = {(1, 1)},
         knowledge = [\<lparr>cells = {(0, 0), (0, 1), (0, 2), (1, 0), (1, 2), (2, 0), (2, 1), (2, 2)}, count = 2\<rparr>]\<rparr>"
  have r0: "reachable ascending ?M 3 3 (init 3 3)" by (rule reachable.start)
  have m1: "(1, 1) \<notin> ?M" and m2: "(0, 0) \<notin> ?M" by simp_all
  have a1: "add_knowledge 4 ascending (1, 1)
      (int (card (neighbours (height (init 3 3)) (width (init 3 3)) (1, 1) \<inter> ?M))) (init 3 3) = Some ?s1"
    by code_simp
  have a2: "add_knowledge 4 ascending (0, 0)
      (int (card (neighbours (height ?s1) (width ?s1) (0, 0) \<inter> ?M))) ?s1 = Some board3"
    by code_simp
  from r0 m1 a1 have "reachable ascending ?M 3 3 ?s1" by (rule reachable.reveal)
  from this m2 a2 show ?thesis by (rule reachable.reveal)
qed

theorem add_knowledge_diverges: "add_knowledge n en (1, 1) 5 board3 = None"
proof -
  let ?cii = "conclude_infer_integrate n en"
  let ?st0 = "board3\<lparr>moves_made := insert (1, 1) (moves_made board3)\<rparr>"
  let ?st1 = "?st0\<lparr>safes := insert (1, 1) (safes ?st0)\<rparr>"
  have same: "?st1 = board3" by (simp add: board3_def insert_absorb)
  have "\<forall>s \<in> set (knowledge board3). (1, 1) \<notin> cells s"
    by (simp add: board3_def ring_def corner_def far_def)
  then have "mark_safe_loop ?cii n (1, 1) 0 board3 = None \<or> mark_safe_loop ?cii n (1, 1) 0 board3 = Some board3"
    by (rule mark_safe_loop_untouched)
  with same have m: "mark_safe ?cii n (1, 1) ?st0 = None \<or> mark_safe ?cii n (1, 1) ?st0 = Some board3"
    by (simp only: mark_safe_def)
  have s: "scan board3 (block board3 (1, 1)) {} 5 = \<lparr>cells = ring, count = 5\<rparr>" by code_simp
  from m show ?thesis
  proof
    assume "mark_safe ?cii n (1, 1) ?st0 = None"
    then show ?thesis by (simp add: add_knowledge_def)
  next
    assume "mark_safe ?cii n (1, 1) ?st0 = Some board3"
    with s integrate_diverges [of n en] show ?thesis by (simp add: add_knowledge_def)
  qed
qed

section \<open>The claims\<close>

text \<open>C1: after \<^verbatim>\<open>mark_mine(cell)\<close> or \<^verbatim>\<open>mark_safe(cell)\<close> returns, no sentence left in
  \<^verbatim>\<open>knowledge\<close> contains the cell, and in every reachable state no cell of a sentence in
  \<^verbatim>\<open>knowledge\<close> is in \<^verbatim>\<open>safes\<close> or \<^verbatim>\<open>mines\<close>.  The code does not do this.  On a board
  of height 1 and width 5 with mines at \<open>(0, 0)\<close> and \<open>(0, 4)\<close>, the truthful calls
  \<^verbatim>\<open>add_knowledge((0, 1), 1)\<close> and \<^verbatim>\<open>add_knowledge((0, 3), 1)\<close> leave two sentences that both
  contain \<open>(0, 2)\<close>.  The call \<^verbatim>\<open>mark_safe((0, 2))\<close>, the first step of
  \<^verbatim>\<open>add_knowledge((0, 2), 0)\<close>, prunes the first sentence and removes it from the list; the
  list iterator then stands behind the second sentence, which keeps \<open>(0, 2)\<close> although the
  cell is now in \<^verbatim>\<open>safes\<close>.\<close>

theorem mark_safe_skips_sentence_after_removed_one:
  "add_knowledge 4 ascending (0, 1) 1 (init 1 5) =
     Some \<lparr>height = 1, width = 5, moves_made = {(0, 1)}, mines = {}, safes = {(0, 1)},
           knowledge = [\<lparr>cells = {(0, 0), (0, 2)}, count = 1\<rparr>]\<rparr> \<and>
   add_knowledge 4 ascending (0, 3) 1
       \<lparr>height = 1, width = 5, moves_made = {(0, 1)}, mines = {}, safes = {(0, 1)},
           knowledge = [\<lparr>cells = {(0, 0), (0, 2)}, count = 1\<rparr>]\<rparr> =
     Some \<lparr>height = 1, width = 5, moves_made = {(0, 1), (0, 3)}, mines = {}, safes = {(0, 1), (0, 3)},
           knowledge = [\<lparr>cells = {(0, 0), (0, 2)}, count = 1\<rparr>, \<lparr>cells = {(0, 2), (0, 4)}, count = 1\<rparr>]\<rparr> \<and>
   mark_safe (conclude_infer_integrate 4 ascending) 4 (0, 2)
       \<lparr>height = 1, width = 5, moves_made = {(0, 1), (0, 3)}, mines = {}, safes = {(0, 1), (0, 3)},
           knowledge = [\<lparr>cells = {(0, 0), (0, 2)}, count = 1\<rparr>, \<lparr>cells = {(0, 2), (0, 4)}, count = 1\<rparr>]\<rparr> =
     Some \<lparr>height = 1, width = 5, moves_made = {(0, 1), (0, 3)}, mines = {(0, 0)}, safes = {(0, 1), (0, 2), (0, 3)},
           knowledge = [\<lparr>cells = {(0, 2), (0, 4)}, count = 1\<rparr>]\<rparr>"
  by code_simp

text \<open>C2: in every state reached by calls of \<^verbatim>\<open>add_knowledge\<close> that keep the caller's
  contract, \<^verbatim>\<open>mines\<close> and \<^verbatim>\<open>safes\<close> are disjoint.\<close>

theorem reachable_mines_safes_disjoint: "enumerates en \<Longrightarrow> reachable en M h w st \<Longrightarrow> mines st \<inter> safes st = {}"
proof -
  assume "enumerates en" "reachable en M h w st"
  then have "sound M st" by (rule reachable_sound)
  then show ?thesis by (auto simp: sound_def)
qed

theorem reachable_mines_safes_disjoint_witness: "enumerates ascending \<and> reachable ascending {(0, 0), (0, 4)} 1 5
     \<lparr>height = 1, width = 5, moves_made = {(0, 1), (0, 2), (0, 3)}, mines = {(0, 0)},
      safes = {(0, 1), (0, 2), (0, 3)}, knowledge = [\<lparr>cells = {(0, 2), (0, 4)}, count = 1\<rparr>]\<rparr> \<and>
    mines \<lparr>height = 1, width = 5, moves_made = {(0, 1), (0, 2), (0, 3)}, mines = {(0, 0)},
      safes = {(0, 1), (0, 2), (0, 3)}, knowledge = [\<lparr>cells = {(0, 2), (0, 4)}, count = 1\<rparr>]\<rparr> \<inter>
    safes \<lparr>height = 1, width = 5, moves_made = {(0, 1), (0, 2), (0, 3)}, mines = {(0, 0)},
      safes = {(0, 1), (0, 2), (0, 3)}, knowledge = [\<lparr>cells = {(0, 2), (0, 4)}, count = 1\<rparr>]\<rparr> = {}"
  using reachable_mines_safes_disjoint [OF enumerates_ascending reachable_example] enumerates_ascending reachable_example
  by blast

text \<open>C3: in every state reached by calls of \<^verbatim>\<open>add_knowledge\<close> that keep the caller's
  contract, every sentence in \<^verbatim>\<open>knowledge\<close> has \<open>0 \<le> count \<le> |cells|\<close>, and it still has
  after \<^verbatim>\<open>Sentence.mark_mine\<close> has pruned a cell that holds a mine or
  \<^verbatim>\<open>Sentence.mark_safe\<close> a cell that holds none.\<close>

theorem reachable_sentence_count_bounds:
  assumes "enumerates en" "reachable en M h w st" "s \<in> set (knowledge st)"
  shows "0 \<le> count s \<and> count s \<le> int (card (cells s)) \<and>
     (c \<in> M \<longrightarrow> 0 \<le> count (snd (Sentence_mark_mine c s)) \<and>
        count (snd (Sentence_mark_mine c s)) \<le> int (card (cells (snd (Sentence_mark_mine c s))))) \<and>
     (c \<notin> M \<longrightarrow> 0 \<le> count (snd (Sentence_mark_safe c s)) \<and>
        count (snd (Sentence_mark_safe c s)) \<le> int (card (cells (snd (Sentence_mark_safe c s)))))"
proof -
  from assms(1,2) have "sound M st" by (rule reachable_sound)
  with assms(3) have s: "sound_sentence M s" by (simp add: sound_def)
  have m: "sound_sentence M (snd (Sentence_mark_mine c s))" if "c \<in> M"
    using s that sound_prune_mine [of M s c] by (simp add: Sentence_mark_mine_def)
  have f: "sound_sentence M (snd (Sentence_mark_safe c s))" if "c \<notin> M"
    using s that sound_prune_safe [of M s c] by (simp add: Sentence_mark_safe_def)
  from s m f show ?thesis using sound_bounds by blast
qed

theorem reachable_sentence_count_bounds_witness: "enumerates ascending \<and> reachable ascending {(0, 0), (0, 4)} 1 5
     \<lparr>height = 1, width = 5, moves_made = {(0, 1), (0, 2), (0, 3)}, mines = {(0, 0)},
      safes = {(0, 1), (0, 2), (0, 3)}, knowledge = [\<lparr>cells = {(0, 2), (0, 4)}, count = 1\<rparr>]\<rparr> \<and>
    0 \<le> count \<lparr>cells = {(0, 2), (0, 4)}, count = 1\<rparr> \<and>
    count \<lparr>cells = {(0, 2), (0, 4)}, count = 1\<rparr> \<le> int (card (cells \<lparr>cells = {(0, 2), (0, 4)}, count = 1\<rparr>)) \<and>
    0 \<le> count (snd (Sentence_mark_mine (0, 4) \<lparr>cells = {(0, 2), (0, 4)}, count = 1\<rparr>)) \<and>
    count (snd (Sentence_mark_mine (0, 4) \<lparr>cells = {(0, 2), (0, 4)}, count = 1\<rparr>)) \<le>
      int (card (cells (snd (Sentence_mark_mine (0, 4) \<lparr>cells = {(0, 2), (0, 4)}, count = 1\<rparr>)))) \<and>
    0 \<le> count (snd (Sentence_mark_safe (0, 2) \<lparr>cells = {(0, 2), (0, 4)}, count = 1\<rparr>)) \<and>
    count (snd (Sentence_mark_safe (0, 2) \<lparr>cells = {(0, 2), (0, 4)}, count = 1\<rparr>)) \<le>
      int (card (cells (snd (Sentence_mark_safe (0, 2) \<lparr>cells = {(0, 2), (0, 4)}, count = 1\<rparr>))))"
proof -
  let ?st = "\<lparr>height = 1, width = 5, moves_made = {(0, 1), (0, 2), (0, 3)}, mines = {(0, 0)},
      safes = {(0, 1), (0, 2), (0, 3)}, knowledge = [\<lparr>cells = {(0, 2), (0, 4)}, count = 1\<rparr>]\<rparr>"
  have i: "\<lparr>cells = {(0, 2), (0, 4)}, count = 1\<rparr> \<in> set (knowledge ?st)" by simp
  have m: "(0, 4) \<in> ({(0, 0), (0, 4)} :: cell set)" and f: "(0, 2) \<notin> ({(0, 0), (0, 4)} :: cell set)"
    by simp_all
  from reachable_sentence_count_bounds [OF enumerates_ascending reachable_example i, of "(0, 4)"]
    reachable_sentence_count_bounds [OF enumerates_ascending reachable_example i, of "(0, 2)"]
    enumerates_ascending reachable_example m f
  show ?thesis by blast
qed

text \<open>C4, as stated: for a sentence with no cells and count 0, \<^verbatim>\<open>known_mines()\<close> returns
  \<^verbatim>\<open>None\<close>.  The code compares the count with the number of cells, finds them equal and
  returns the (empty) cell set.\<close>

theorem known_mines_empty_sentence_not_none:
  "known_mines \<lparr>cells = {}, count = 0\<rparr> \<noteq> None"
  by (simp add: known_mines_def)

text \<open>C4, amended: for a sentence with no cells and count 0, \<^verbatim>\<open>known_mines()\<close> returns the
  empty cell set, which Python's truth test (the one \<^verbatim>\<open>is_conclusive\<close> applies) treats like
  \<^verbatim>\<open>None\<close>; for every sentence with \<open>0 < count < |cells|\<close>, \<^verbatim>\<open>known_mines()\<close> and
  \<^verbatim>\<open>known_safes()\<close> return \<^verbatim>\<open>None\<close>.\<close>

theorem known_mines_known_safes_no_information:
  "(cells s = {} \<and> count s = 0 \<longrightarrow> known_mines s = Some {} \<and> \<not> truthy (known_mines s)) \<and>
   (0 < count s \<and> count s < int (card (cells s)) \<longrightarrow> known_mines s = None \<and> known_safes s = None)"
  by (simp add: known_mines_def known_safes_def)

theorem known_mines_known_safes_no_information_witness:
  "known_mines \<lparr>cells = {}, count = 0\<rparr> = Some {} \<and>
   \<not> truthy (known_mines \<lparr>cells = {}, count = 0\<rparr>) \<and>
   known_mines \<lparr>cells = {(0, 0), (0, 1)}, count = 1\<rparr> = None \<and>
   known_safes \<lparr>cells = {(0, 0), (0, 1)}, count = 1\<rparr> = None"
  using known_mines_known_safes_no_information [of "\<lparr>cells = {}, count = 0\<rparr>"]
    known_mines_known_safes_no_information [of "\<lparr>cells = {(0, 0), (0, 1)}, count = 1\<rparr>"]
  by simp

text \<open>C5: when \<^verbatim>\<open>knowledge\<close> holds exactly the sentence \<open>{A, B, C} = 1\<close> and
  \<^verbatim>\<open>conclude_infer_integrate\<close> is called with \<open>{A, B} = 1\<close>, the inference loop derives
  \<open>{C} = 0\<close>, and the call returns with \<open>C\<close> in \<^verbatim>\<open>safes\<close>.\<close>

theorem subset_inference_marks_safe:
  assumes "enumerates en" "A \<noteq> B" "A \<noteq> C" "B \<noteq> C"
    and "knowledge st = [\<lparr>cells = {A, B, C}, count = 1\<rparr>]"
  shows "make_inferences \<lparr>cells = {A, B}, count = 1\<rparr> (knowledge st) (knowledge st) [] =
           [\<lparr>cells = {C}, count = 0\<rparr>] \<and>
         conclude_infer_integrate (Suc (Suc (Suc (Suc n)))) en \<lparr>cells = {A, B}, count = 1\<rparr> st =
           Some (st\<lparr>knowledge := [\<lparr>cells = {A, B}, count = 1\<rparr>], safes := insert C (safes st)\<rparr>)"
proof -
  from assms(2-5) have i: "make_inferences \<lparr>cells = {A, B}, count = 1\<rparr> (knowledge st) (knowledge st) [] =
           [\<lparr>cells = {C}, count = 0\<rparr>]"
    by (auto simp: insert_Diff_if)
  from assms(2-5) have nc: "is_conclusive cii k en \<lparr>cells = {A, B}, count = 1\<rparr> st = Some (False, st)" for cii k
    by (simp add: is_conclusive_def known_safes_def known_mines_def)
  from assms(2-5) have ne: "\<lparr>cells = {A, B}, count = 1\<rparr> \<notin> set (knowledge st)" "\<not> is_empty \<lparr>cells = {A, B}, count = 1\<rparr>"
    by (auto simp: is_empty_def)
  let ?st1 = "st\<lparr>knowledge := [\<lparr>cells = {A, B, C}, count = 1\<rparr>, \<lparr>cells = {A, B}, count = 1\<rparr>]\<rparr>"
  from assms(2-5) have pr: "\<lparr>cells = {A, B, C} - {C}, count = 1\<rparr> = \<lparr>cells = {A, B}, count = 1\<rparr>"
    by auto
  from assms(2-5) have ms: "mark_safe (conclude_infer_integrate (Suc (Suc n)) en) (Suc (Suc n)) C ?st1 =
      Some (st\<lparr>knowledge := [\<lparr>cells = {A, B}, count = 1\<rparr>], safes := insert C (safes st)\<rparr>)"
    by (simp add: mark_safe_def Sentence_mark_safe_def pr)
  from assms(1) have "is_conclusive (conclude_infer_integrate (Suc (Suc n)) en) (Suc (Suc n)) en \<lparr>cells = {C}, count = 0\<rparr> ?st1 =
     Some (True, st\<lparr>knowledge := [\<lparr>cells = {A, B}, count = 1\<rparr>], safes := insert C (safes st)\<rparr>)"
    by (simp add: is_conclusive_def known_safes_def enumerates_singleton ms del: conclude_infer_integrate.simps)
  moreover from assms(2-5) have "\<lparr>cells = {C}, count = 0\<rparr> \<notin> set (knowledge ?st1)" "\<not> is_empty \<lparr>cells = {C}, count = 0\<rparr>"
    by (auto simp: is_empty_def)
  ultimately have "conclude_infer_integrate (Suc (Suc (Suc n))) en \<lparr>cells = {C}, count = 0\<rparr> ?st1 =
     Some (st\<lparr>knowledge := [\<lparr>cells = {A, B}, count = 1\<rparr>], safes := insert C (safes st)\<rparr>)"
    by (simp del: is_conclusive_def)
  with i nc ne assms(5) show ?thesis by simp
qed

theorem subset_inference_marks_safe_witness:
  "enumerates ascending \<and>
   make_inferences \<lparr>cells = {(0, 0), (0, 1)}, count = 1\<rparr>
      [\<lparr>cells = {(0, 0), (0, 1), (0, 2)}, count = 1\<rparr>]
      [\<lparr>cells = {(0, 0), (0, 1), (0, 2)}, count = 1\<rparr>] [] = [\<lparr>cells = {(0, 2)}, count = 0\<rparr>] \<and>
   conclude_infer_integrate (Suc (Suc (Suc (Suc 0)))) ascending \<lparr>cells = {(0, 0), (0, 1)}, count = 1\<rparr>
      \<lparr>height = 1, width = 3, moves_made = {}, mines = {}, safes = {},
       knowledge = [\<lparr>cells = {(0, 0), (0, 1), (0, 2)}, count = 1\<rparr>]\<rparr> =
   Some \<lparr>height = 1, width = 3, moves_made = {}, mines = {}, safes = {(0, 2)},
         knowledge = [\<lparr>cells = {(0, 0), (0, 1)}, count = 1\<rparr>]\<rparr>"
proof -
  let ?st = "\<lparr>height = 1, width = 3, moves_made = {}, mines = {}, safes = {},
       knowledge = [\<lparr>cells = {(0, 0), (0, 1), (0, 2)}, count = 1\<rparr>]\<rparr>"
  have d: "(0, 0) \<noteq> ((0, 1) :: cell)" "(0, 0) \<noteq> ((0, 2) :: cell)" "(0, 1) \<noteq> ((0, 2) :: cell)"
    by simp_all
  have k: "knowledge ?st = [\<lparr>cells = {(0, 0), (0, 1), (0, 2)}, count = 1\<rparr>]" by simp
  from subset_inference_marks_safe [OF enumerates_ascending d k, of 0] enumerates_ascending show ?thesis by simp
qed

text \<open>C6: \<^verbatim>\<open>conclude_infer_integrate\<close> on the sentence \<open>{A} = 1\<close> with empty
  \<^verbatim>\<open>knowledge\<close> adds \<open>A\<close> to \<^verbatim>\<open>mines\<close> and leaves \<^verbatim>\<open>knowledge\<close> empty; and a
  resolvable sentence that is not in \<^verbatim>\<open>knowledge\<close> when it is integrated is not in
  \<^verbatim>\<open>knowledge\<close> when the call returns.\<close>

theorem resolved_sentence_not_added:
  "(enumerates en \<and> knowledge st = [] \<longrightarrow>
      conclude_infer_integrate (Suc (Suc n)) en \<lparr>cells = {A}, count = 1\<rparr> st =
        Some (st\<lparr>mines := insert A (mines st)\<rparr>)) \<and>
   (resolvable s \<and> s \<notin> set (knowledge st1) \<and> conclude_infer_integrate m en s st1 = Some st' \<longrightarrow>
      s \<notin> set (knowledge st'))"
proof (intro conjI impI)
  assume "enumerates en \<and> knowledge st = []"
  then show "conclude_infer_integrate (Suc (Suc n)) en \<lparr>cells = {A}, count = 1\<rparr> st =
        Some (st\<lparr>mines := insert A (mines st)\<rparr>)"
    by (simp add: is_empty_def is_conclusive_def known_safes_def known_mines_def
        enumerates_singleton mark_mine_def)
next
  assume a: "resolvable s \<and> s \<notin> set (knowledge st1) \<and> conclude_infer_integrate m en s st1 = Some st'"
  show "s \<notin> set (knowledge st')"
  proof
    assume "s \<in> set (knowledge st')"
    with adds_conclude_infer_integrate a have "s \<in> set (knowledge st1) \<or> \<not> resolvable s"
      using adds_unresolvedD by blast
    with a show False by blast
  qed
qed

theorem resolved_sentence_not_added_witness:
  "enumerates ascending \<and>
   conclude_infer_integrate (Suc (Suc 0)) ascending \<lparr>cells = {(0, 0)}, count = 1\<rparr>
      \<lparr>height = 1, width = 3, moves_made = {}, mines = {}, safes = {}, knowledge = []\<rparr> =
     Some \<lparr>height = 1, width = 3, moves_made = {}, mines = {(0, 0)}, safes = {}, knowledge = []\<rparr> \<and>
   resolvable \<lparr>cells = {(0, 0)}, count = 1\<rparr> \<and>
   conclude_infer_integrate 5 ascending \<lparr>cells = {(0, 0)}, count = 1\<rparr>
      \<lparr>height = 1, width = 3, moves_made = {}, mines = {}, safes = {},
       knowledge = [\<lparr>cells = {(0, 0), (0, 1)}, count = 1\<rparr>]\<rparr> =
     Some \<lparr>height = 1, width = 3, moves_made = {}, mines = {(0, 0)}, safes = {(0, 1)}, knowledge = []\<rparr> \<and>
   \<lparr>cells = {(0, 0)}, count = 1\<rparr> \<notin> set []"
proof -
  let ?e = "\<lparr>height = 1, width = 3, moves_made = {}, mines = {}, safes = {}, knowledge = []\<rparr>"
  let ?st = "\<lparr>height = 1, width = 3, moves_made = {}, mines = {}, safes = {},
       knowledge = [\<lparr>cells = {(0, 0), (0, 1)}, count = 1\<rparr>]\<rparr>"
  let ?st' = "\<lparr>height = 1, width = 3, moves_made = {}, mines = {(0, 0)}, safes = {(0, 1)}, knowledge = []\<rparr>"
  let ?s = "\<lparr>cells = {(0, 0)}, count = 1\<rparr>"
  have r: "resolvable ?s" by (simp add: resolvable_def)
  have n: "?s \<notin> set (knowledge ?st)" by simp
  have c: "conclude_infer_integrate 5 ascending ?s ?st = Some ?st'" by code_simp
  have k: "knowledge ?e = []" by simp
  from resolved_sentence_not_added [where en = ascending and st = ?e and n = 0 and A = "(0, 0)" and s = ?s
      and ?st1.0 = ?st and m = 5 and st' = ?st'] enumerates_ascending r n c k
  show ?thesis by simp
qed



text \<open>C8: integrating a sentence that is already in \<^verbatim>\<open>knowledge\<close> (same cell set and same
  count) returns at once and leaves the whole state as it was: nothing is added to
  \<^verbatim>\<open>knowledge\<close>, \<^verbatim>\<open>safes\<close> and \<^verbatim>\<open>mines\<close> are unchanged, and no other method is called.\<close>

theorem integrate_present_sentence_is_noop:
  "sentence \<in> set (knowledge st) \<Longrightarrow> conclude_infer_integrate (Suc n) en sentence st = Some st"
  by simp

theorem integrate_present_sentence_is_noop_witness:
  "conclude_infer_integrate (Suc 0) ascending \<lparr>cells = {(0, 0), (0, 1)}, count = 1\<rparr>
     \<lparr>height = 1, width = 3, moves_made = {}, mines = {}, safes = {},
      knowledge = [\<lparr>cells = {(0, 0), (0, 1)}, count = 1\<rparr>]\<rparr> =
   Some \<lparr>height = 1, width = 3, moves_made = {}, mines = {}, safes = {},
         knowledge = [\<lparr>cells = {(0, 0), (0, 1)}, count = 1\<rparr>]\<rparr>"
  using integrate_present_sentence_is_noop
    [of "\<lparr>cells = {(0, 0), (0, 1)}, count = 1\<rparr>"
        "\<lparr>height = 1, width = 3, moves_made = {}, mines = {}, safes = {},
          knowledge = [\<lparr>cells = {(0, 0), (0, 1)}, count = 1\<rparr>]\<rparr>" 0 ascending]
  by simp




end
